theory Spec2Isabelle
  imports Main
begin

section \<open>Template compiler: marker placement\<close>

text \<open>
  The literal segments of a tagged template are JavaScript strings; they are modelled as
  \<^typ>\<open>string\<close>. Only the positions of the two ASCII characters \<open><\<close> and \<open>>\<close> matter
  to the compiler, and these are single units in every encoding of the text.
\<close>

definition MARKER_PREFIX :: string where
  "MARKER_PREFIX = ''{{lit-''"

definition MARKER_SUFFIX :: string where
  "MARKER_SUFFIX = ''}}''"

definition digit_char :: "nat \<Rightarrow> char" where
  "digit_char d = ''0123456789'' ! d"

fun show_nat :: "nat \<Rightarrow> string" where
  "show_nat n = (if n < 10 then [digit_char n] else show_nat (n div 10) @ [digit_char (n mod 10)])"

declare show_nat.simps [simp del]

fun lastIndexOf_from :: "char \<Rightarrow> string \<Rightarrow> nat \<Rightarrow> int \<Rightarrow> int" where
  "lastIndexOf_from c [] i found = found"
| "lastIndexOf_from c (x # xs) i found =
     lastIndexOf_from c xs (Suc i) (if x = c then int i else found)"

definition lastIndexOf :: "string \<Rightarrow> char \<Rightarrow> int" where
  "lastIndexOf s c = lastIndexOf_from c s 0 (- 1)"

definition isAttributePosition :: "string \<Rightarrow> bool" where
  "isAttributePosition html =
     (let lastOpenTag = lastIndexOf html (CHR ''<'');
          lastCloseTag = lastIndexOf html (CHR ''>'')
      in lastOpenTag > lastCloseTag)"

definition attribute_marker :: "nat \<Rightarrow> string" where
  "attribute_marker i = MARKER_PREFIX @ show_nat i @ MARKER_SUFFIX"

definition comment_marker :: "nat \<Rightarrow> string" where
  "comment_marker i = ''<!--'' @ MARKER_PREFIX @ show_nat i @ MARKER_SUFFIX @ ''-->''"

fun createElement_loop :: "string list \<Rightarrow> nat \<Rightarrow> string \<Rightarrow> string" where
  "createElement_loop [] i html = html"
| "createElement_loop (s # rest) i html =
     (let html1 = html @ s in
      if rest \<noteq> [] then
        (if isAttributePosition html1
         then createElement_loop rest (Suc i) (html1 @ attribute_marker i)
         else createElement_loop rest (Suc i) (html1 @ comment_marker i))
      else createElement_loop rest (Suc i) html1)"

definition createElement :: "string list \<Rightarrow> string" where
  "createElement strings = createElement_loop strings 0 []"

definition most_recent_bracket :: "string \<Rightarrow> char option" where
  "most_recent_bracket html =
     (case dropWhile (\<lambda>c. c \<noteq> CHR ''<'' \<and> c \<noteq> CHR ''>'') (rev html) of
        [] \<Rightarrow> None
      | c # _ \<Rightarrow> Some c)"

definition spec_attribute_position :: "string \<Rightarrow> bool" where
  "spec_attribute_position html = (most_recent_bracket html = Some (CHR ''<''))"

lemma lastIndexOf_from_append:
  "lastIndexOf_from c (xs @ [x]) i found =
     (if x = c then int (i + length xs) else lastIndexOf_from c xs i found)"
  by (induction xs arbitrary: i found) auto

lemma lastIndexOf_snoc:
  "lastIndexOf (xs @ [x]) c = (if x = c then int (length xs) else lastIndexOf xs c)"
  by (simp add: lastIndexOf_def lastIndexOf_from_append)

lemma lastIndexOf_Nil [simp]: "lastIndexOf [] c = - 1"
  by (simp add: lastIndexOf_def)

lemma lastIndexOf_bounds: "- 1 \<le> lastIndexOf xs c \<and> lastIndexOf xs c < int (length xs)"
  by (induction xs rule: rev_induct) (auto simp: lastIndexOf_snoc)

lemma lastIndexOf_absent: "c \<notin> set xs \<Longrightarrow> lastIndexOf xs c = - 1"
  by (induction xs rule: rev_induct) (auto simp: lastIndexOf_snoc)

lemma isAttributePosition_spec: "isAttributePosition html = spec_attribute_position html"
proof (induction html rule: rev_induct)
  case Nil
  show ?case
    by (simp add: isAttributePosition_def spec_attribute_position_def most_recent_bracket_def)
next
  case (snoc x xs)
  from lastIndexOf_bounds [of xs "CHR ''<''"] lastIndexOf_bounds [of xs "CHR ''>''"] snoc
  show ?case
    by (auto simp: isAttributePosition_def spec_attribute_position_def most_recent_bracket_def
        lastIndexOf_snoc Let_def)
qed

lemma createElement_loop_snoc:
  "ss \<noteq> [] \<Longrightarrow>
   createElement_loop (ss @ [s]) i html =
     (let p = createElement_loop ss i html;
          j = i + length ss - 1
      in p @ (if isAttributePosition p then attribute_marker j else comment_marker j) @ s)"
proof (induction ss arbitrary: i html)
  case Nil
  then show ?case by simp
next
  case (Cons a ss)
  show ?case
  proof (cases "ss = []")
    case True
    then show ?thesis by (simp add: Let_def)
  next
    case False
    with Cons.IH [OF False] show ?thesis by (simp add: Let_def)
  qed
qed

text \<open>
  C3 (template slot classification). The compiled markup of the first \<open>i + 2\<close> literal
  segments is the compiled markup of the first \<open>i + 1\<close> segments (the accumulated prefix
  at interpolation \<open>i\<close>, markers of earlier interpolations included), followed by the
  marker of interpolation \<open>i\<close> and the next segment. The marker is the attribute-value
  placeholder exactly when, scanning the accumulated prefix backwards from the
  interpolation, the most recent angle bracket is an opening one (an opening bracket
  with no closing bracket after it); otherwise it is the comment marker.
\<close>

theorem slot_classification:
  assumes "i + 1 < length strings"
  shows "createElement (take (i + 2) strings) =
           (let prefix = createElement (take (i + 1) strings) in
            prefix @
            (if spec_attribute_position prefix then attribute_marker i else comment_marker i) @
            strings ! (i + 1))"
proof -
  have split: "take (i + 2) strings = take (i + 1) strings @ [strings ! (i + 1)]"
    using assms by (simp add: take_Suc_conv_app_nth)
  have nonempty: "take (i + 1) strings \<noteq> []"
    using assms by auto
  have len: "0 + length (take (i + 1) strings) - 1 = i"
    using assms by simp
  show ?thesis
    unfolding createElement_def split
    by (simp only: createElement_loop_snoc [OF nonempty] Let_def len
        isAttributePosition_spec)
qed

theorem slot_classification_witness:
  "createElement (take (1 + 2) [''<div class='', ''>'', ''</div>'']) =
     ''<div class={{lit-0}}>'' @ ''<!--{{lit-1}}-->'' @ ''</div>''"
  using slot_classification [of 1 "[''<div class='', ''>'', ''</div>'']"]
  by (simp add: createElement_def isAttributePosition_def lastIndexOf_def
      spec_attribute_position_def most_recent_bracket_def
      attribute_marker_def comment_marker_def MARKER_PREFIX_def MARKER_SUFFIX_def
      show_nat.simps digit_char_def Let_def)

section \<open>Reactive core: values, heap and programs\<close>

text \<open>
  The reactive core of \<^verbatim>\<open>htmp.js\<close> (\<^verbatim>\<open>reactive\<close>, \<^verbatim>\<open>track\<close>, \<^verbatim>\<open>trigger\<close>,
  \<^verbatim>\<open>queueJob\<close>, \<^verbatim>\<open>cleanupEffect\<close>, \<^verbatim>\<open>effect\<close>) works on module-level mutable state.
  The model passes that state explicitly as the record \<open>rstate\<close>.

  \<^item> JavaScript values are primitives, references to objects, and the functions that
    \<^verbatim>\<open>reactive\<close> installs on arrays (\<open>Interceptor\<close>). \<open>strict_eq\<close> is \<^verbatim>\<open>===\<close>
    (\<open>NaN\<close> differs from itself, objects are compared by identity), \<open>truthy\<close> is
    the boolean coercion, \<open>is_object v\<close> is
    \<^verbatim>\<open>typeof v === 'object' && v !== null\<close>.
  \<^item> The heap maps an address to a cell: a raw object (its own properties and the answer
    of \<^verbatim>\<open>Array.isArray\<close>) or a \<^verbatim>\<open>Proxy\<close> with its target. Every \<^verbatim>\<open>new Proxy\<close>
    takes a fresh address, so reference equality of proxies is equality of addresses.
    Property keys are strings. A raw read of a missing property gives \<open>undefined\<close>;
    prototype chains, accessors and the coupling of an array's indices with its
    \<open>length\<close> are features of the host language that the library's code does not
    look at, and are not modelled.
  \<^item> \<^verbatim>\<open>targetMap\<close> (a WeakMap of Maps of Sets) is a partial map from (target, key)
    to the insertion-ordered list of subscribed effects; the entry is absent until the
    first \<^verbatim>\<open>track\<close>. An effect's \<^verbatim>\<open>deps\<close> array holds references to those Sets and is
    modelled by the list of their (target, key) pairs. \<^verbatim>\<open>updateQueue\<close> (a Set) is an
    insertion-ordered list without duplicates.
  \<^item> \<^verbatim>\<open>Promise.resolve().then(flush)\<close> adds one pending callback; \<open>microtasks\<close> counts
    the flush callbacks that are waiting, and \<open>run_microtask\<close> runs one of them.
  \<^item> Code that uses the library (the body of an effect, an event handler, a whole
    synchronous turn) is a value of type \<open>prog\<close>: a tree of calls into the library
    whose continuations receive the results, so that a program can branch on what it
    reads. \<open>Throw\<close> is an exception raised by that code. \<open>exec\<close> runs a program and
    returns the final state and whether it completed or threw.
  \<^item> \<open>trace\<close> is a ghost field: it records every call of \<^verbatim>\<open>trigger\<close> (\<open>Notify\<close>),
    of \<^verbatim>\<open>queueJob\<close> (\<open>Schedule\<close>) and every invocation of an effect function
    (\<open>Execute\<close>). No decision of the model reads it.
\<close>

datatype prim = Undefined | Null | Bool bool | Num int | NaN | Str string

fun prim_strict_eq :: "prim \<Rightarrow> prim \<Rightarrow> bool" where
  "prim_strict_eq NaN b = False"
| "prim_strict_eq a NaN = False"
| "prim_strict_eq a b = (a = b)"

fun prim_truthy :: "prim \<Rightarrow> bool" where
  "prim_truthy Undefined = False"
| "prim_truthy Null = False"
| "prim_truthy (Bool b) = b"
| "prim_truthy (Num n) = (n \<noteq> 0)"
| "prim_truthy NaN = False"
| "prim_truthy (Str s) = (s \<noteq> [])"

type_synonym addr = nat

type_synonym key = string

type_synonym eid = nat

datatype val = Prim prim | Ref addr | Interceptor addr string

fun strict_eq :: "val \<Rightarrow> val \<Rightarrow> bool" where
  "strict_eq (Prim a) (Prim b) = prim_strict_eq a b"
| "strict_eq (Ref a) (Ref b) = (a = b)"
| "strict_eq (Interceptor a m) (Interceptor b n) = (a = b \<and> m = n)"
| "strict_eq a b = False"

fun truthy :: "val \<Rightarrow> bool" where
  "truthy (Prim p) = prim_truthy p"
| "truthy (Ref a) = True"
| "truthy (Interceptor a m) = True"

fun is_object :: "val \<Rightarrow> bool" where
  "is_object (Ref a) = True"
| "is_object v = False"

record jsobj =
  is_array :: bool
  props :: "key \<rightharpoonup> val"

datatype cell = Obj jsobj | Proxy addr

datatype prog =
    Done
  | Throw
  | NewObject jsobj "addr \<Rightarrow> prog"
  | Reactive val "(addr \<times> key) option" "val \<Rightarrow> prog"
  | Get addr key "val \<Rightarrow> prog"
  | Put addr key val prog
  | CallMethod addr string "jsobj \<Rightarrow> jsobj \<times> val" "val \<Rightarrow> prog"
  | CreateEffect prog "eid \<Rightarrow> prog"

datatype outcome = Normal | Threw

datatype event = Notify addr key | Schedule eid | Execute eid

record effect_rec =
  fn :: prog
  deps :: "(addr \<times> key) list"

record rstate =
  heap :: "addr \<rightharpoonup> cell"
  next_addr :: addr
  reactiveMap :: "addr \<rightharpoonup> addr"
  parentMap :: "addr \<rightharpoonup> (addr \<times> key)"
  targetMap :: "(addr \<times> key) \<rightharpoonup> eid list"
  effects :: "eid \<rightharpoonup> effect_rec"
  next_eid :: eid
  currentEffect :: "eid option"
  updateQueue :: "eid list"
  isFlushPending :: bool
  microtasks :: nat
  trace :: "event list"

definition init_state :: rstate where
  "init_state = \<lparr> heap = Map.empty, next_addr = 0, reactiveMap = Map.empty,
     parentMap = Map.empty, targetMap = Map.empty, effects = Map.empty, next_eid = 0,
     currentEffect = None, updateQueue = [], isFlushPending = False, microtasks = 0,
     trace = [] \<rparr>"

definition set_add :: "'a list \<Rightarrow> 'a \<Rightarrow> 'a list" where
  "set_add xs x = (if x \<in> set xs then xs else xs @ [x])"

definition set_delete :: "'a list \<Rightarrow> 'a \<Rightarrow> 'a list" where
  "set_delete xs x = removeAll x xs"

definition queueJob :: "rstate \<Rightarrow> eid \<Rightarrow> rstate" where
  "queueJob st job =
     (let st1 = st\<lparr>updateQueue := set_add (updateQueue st) job,
                    trace := trace st @ [Schedule job]\<rparr>
      in if \<not> isFlushPending st1
         then st1\<lparr>isFlushPending := True, microtasks := Suc (microtasks st1)\<rparr>
         else st1)"

definition trigger :: "rstate \<Rightarrow> addr \<Rightarrow> key \<Rightarrow> rstate" where
  "trigger st target key =
     (let st0 = st\<lparr>trace := trace st @ [Notify target key]\<rparr> in
      case targetMap st0 (target, key) of
        None \<Rightarrow> st0
      | Some dep \<Rightarrow>
          foldl (\<lambda>s effect. if Some effect \<noteq> currentEffect s then queueJob s effect else s)
            st0 dep)"

definition track :: "rstate \<Rightarrow> addr \<Rightarrow> key \<Rightarrow> rstate" where
  "track st target key =
     (case currentEffect st of
        None \<Rightarrow> st
      | Some e \<Rightarrow>
          (let dep = (case targetMap st (target, key) of None \<Rightarrow> [] | Some d \<Rightarrow> d);
               st1 = st\<lparr>targetMap := (targetMap st)((target, key) \<mapsto> set_add dep e)\<rparr>
           in case effects st1 e of
                None \<Rightarrow> st1
              | Some r \<Rightarrow>
                  st1\<lparr>effects := (effects st1)(e \<mapsto> r\<lparr>deps := deps r @ [(target, key)]\<rparr>)\<rparr>))"

definition cleanupEffect :: "rstate \<Rightarrow> eid \<Rightarrow> rstate" where
  "cleanupEffect st e =
     (case effects st e of
        None \<Rightarrow> st
      | Some r \<Rightarrow>
          (let st1 = foldl (\<lambda>s dep.
                        case targetMap s dep of
                          None \<Rightarrow> s
                        | Some d \<Rightarrow> s\<lparr>targetMap := (targetMap s)(dep \<mapsto> set_delete d e)\<rparr>)
                      st (deps r)
           in st1\<lparr>effects := (effects st1)(e \<mapsto> r\<lparr>deps := []\<rparr>)\<rparr>))"

definition raw_get :: "jsobj \<Rightarrow> key \<Rightarrow> val" where
  "raw_get ob k = (case props ob k of None \<Rightarrow> Prim Undefined | Some v \<Rightarrow> v)"

definition raw_set :: "jsobj \<Rightarrow> key \<Rightarrow> val \<Rightarrow> jsobj" where
  "raw_set ob k v = ob\<lparr>props := (props ob)(k \<mapsto> v)\<rparr>"

definition empty_obj :: jsobj where
  "empty_obj = \<lparr> is_array = False, props = Map.empty \<rparr>"

definition target_obj :: "rstate \<Rightarrow> addr \<Rightarrow> jsobj" where
  "target_obj st a = (case heap st a of Some (Obj ob) \<Rightarrow> ob | _ \<Rightarrow> empty_obj)"

definition arrayMethods :: "string list" where
  "arrayMethods = [''push'', ''pop'', ''shift'', ''unshift'', ''splice'', ''sort'', ''reverse'']"

definition install_interceptors :: "addr \<Rightarrow> jsobj \<Rightarrow> jsobj" where
  "install_interceptors a ob =
     foldl (\<lambda>ob' method. raw_set ob' method (Interceptor a method)) ob arrayMethods"

definition set_parent :: "rstate \<Rightarrow> addr \<Rightarrow> (addr \<times> key) option \<Rightarrow> rstate" where
  "set_parent st a par =
     (case par of None \<Rightarrow> st | Some pk \<Rightarrow> st\<lparr>parentMap := (parentMap st)(a \<mapsto> pk)\<rparr>)"

definition reactive :: "rstate \<Rightarrow> val \<Rightarrow> (addr \<times> key) option \<Rightarrow> rstate \<times> val" where
  "reactive st obj par =
     (case obj of
        Ref a \<Rightarrow>
          (case heap st a of
             None \<Rightarrow> (st, obj)
           | Some (Proxy t) \<Rightarrow> (st, obj)
           | Some (Obj ob) \<Rightarrow>
               if truthy (raw_get ob ''__isReactive'') then (st, obj)
               else
                 (case reactiveMap st a of
                    Some proxy \<Rightarrow> (set_parent st a par, Ref proxy)
                  | None \<Rightarrow>
                      (let st1 = set_parent st a par;
                           proxy = next_addr st1;
                           ob' = (if is_array ob then install_interceptors a ob else ob)
                       in (st1\<lparr>heap := (heap st1)(proxy \<mapsto> Proxy a, a \<mapsto> Obj ob'),
                               next_addr := Suc proxy,
                               reactiveMap := (reactiveMap st1)(a \<mapsto> proxy)\<rparr>,
                           Ref proxy))))
      | _ \<Rightarrow> (st, obj))"

definition proxy_get :: "rstate \<Rightarrow> addr \<Rightarrow> key \<Rightarrow> rstate \<times> val" where
  "proxy_get st target key =
     (if key = ''__isReactive'' then (st, Prim (Bool True))
      else if key = ''__raw'' then (st, Ref target)
      else
        (let st1 = track st target key;
             st2 = (if is_array (target_obj st1 target) then track st1 target ''__array__''
                    else st1);
             value = raw_get (target_obj st2 target) key
         in if truthy value \<and> is_object value then reactive st2 value (Some (target, key))
            else (st2, value)))"

definition proxy_set :: "rstate \<Rightarrow> addr \<Rightarrow> key \<Rightarrow> val \<Rightarrow> rstate" where
  "proxy_set st target key value =
     (let ob = target_obj st target;
          oldValue = raw_get ob key;
          st1 = st\<lparr>heap := (heap st)(target \<mapsto> Obj (raw_set ob key value))\<rparr>
      in if \<not> strict_eq oldValue value \<or> is_object value then
           (let st2 = trigger st1 target key;
                st3 = (if is_array (target_obj st2 target) \<and> key = ''length''
                       then trigger st2 target ''__array__'' else st2)
            in case parentMap st3 target of
                 None \<Rightarrow> st3
               | Some (parentTarget, parentKey) \<Rightarrow> trigger st3 parentTarget parentKey)
         else st1)"

definition this_raw :: "rstate \<Rightarrow> addr \<Rightarrow> addr \<Rightarrow> addr option" where
  "this_raw st this obj =
     (case heap st this of
        None \<Rightarrow> None
      | Some (Proxy t) \<Rightarrow> Some t
      | Some (Obj ob) \<Rightarrow>
          (let r = raw_get ob ''__raw'' in
           if truthy r then (case r of Ref x \<Rightarrow> Some x | _ \<Rightarrow> None) else Some obj))"

definition array_interceptor ::
  "rstate \<Rightarrow> addr \<Rightarrow> addr \<Rightarrow> (jsobj \<Rightarrow> jsobj \<times> val) \<Rightarrow> (rstate \<times> val) option" where
  "array_interceptor st obj this original =
     (case this_raw st this obj of
        None \<Rightarrow> None
      | Some raw \<Rightarrow>
          (case heap st raw of
             Some (Obj ob) \<Rightarrow>
               (let (ob', result) = original ob;
                    st1 = st\<lparr>heap := (heap st)(raw \<mapsto> Obj ob')\<rparr>;
                    st2 = trigger st1 obj ''__array__'';
                    st3 = trigger st2 obj ''length'';
                    st4 = (case parentMap st3 obj of
                             None \<Rightarrow> st3
                           | Some (parentTarget, parentKey) \<Rightarrow> trigger st3 parentTarget parentKey)
                in Some (st4, result))
           | _ \<Rightarrow> None))"

definition read_prop :: "rstate \<Rightarrow> addr \<Rightarrow> key \<Rightarrow> (rstate \<times> val) option" where
  "read_prop st x key =
     (case heap st x of
        None \<Rightarrow> None
      | Some (Obj ob) \<Rightarrow> Some (st, raw_get ob key)
      | Some (Proxy t) \<Rightarrow> Some (proxy_get st t key))"

definition write_prop :: "rstate \<Rightarrow> addr \<Rightarrow> key \<Rightarrow> val \<Rightarrow> rstate option" where
  "write_prop st x key v =
     (case heap st x of
        None \<Rightarrow> None
      | Some (Obj ob) \<Rightarrow> Some (st\<lparr>heap := (heap st)(x \<mapsto> Obj (raw_set ob key v))\<rparr>)
      | Some (Proxy t) \<Rightarrow> Some (proxy_set st t key v))"

definition call_method ::
  "rstate \<Rightarrow> addr \<Rightarrow> string \<Rightarrow> (jsobj \<Rightarrow> jsobj \<times> val) \<Rightarrow> (rstate \<times> val) option" where
  "call_method st x m original =
     (case read_prop st x m of
        Some (st1, Interceptor obj method) \<Rightarrow> array_interceptor st1 obj x original
      | _ \<Rightarrow> None)"

definition effectFn ::
  "eid \<Rightarrow> (rstate \<Rightarrow> rstate \<times> outcome) \<Rightarrow> rstate \<Rightarrow> rstate \<times> outcome" where
  "effectFn e run st =
     (let st1 = cleanupEffect st e;
          prevEffect = currentEffect st1;
          st2 = st1\<lparr>currentEffect := Some e, trace := trace st1 @ [Execute e]\<rparr>;
          (st3, out) = run st2
      in (st3\<lparr>currentEffect := prevEffect\<rparr>, out))"

definition new_effect :: "rstate \<Rightarrow> prog \<Rightarrow> rstate" where
  "new_effect st body =
     st\<lparr>effects := (effects st)(next_eid st \<mapsto> \<lparr> fn = body, deps = [] \<rparr>),
        next_eid := Suc (next_eid st)\<rparr>"

primrec exec :: "prog \<Rightarrow> rstate \<Rightarrow> rstate \<times> outcome" where
  "exec Done st = (st, Normal)"
| "exec Throw st = (st, Threw)"
| "exec (NewObject ob k) st =
     exec (k (next_addr st))
       (st\<lparr>heap := (heap st)(next_addr st \<mapsto> Obj ob), next_addr := Suc (next_addr st)\<rparr>)"
| "exec (Reactive v par k) st = (case reactive st v par of (st1, w) \<Rightarrow> exec (k w) st1)"
| "exec (Get x key k) st =
     (case read_prop st x key of None \<Rightarrow> (st, Threw) | Some (st1, v) \<Rightarrow> exec (k v) st1)"
| "exec (Put x key v p) st =
     (case write_prop st x key v of None \<Rightarrow> (st, Threw) | Some st1 \<Rightarrow> exec p st1)"
| "exec (CallMethod x m original k) st =
     (case call_method st x m original of
        None \<Rightarrow> (st, Threw)
      | Some (st1, v) \<Rightarrow> exec (k v) st1)"
| "exec (CreateEffect body k) st =
     (case effectFn (next_eid st) (exec body) (new_effect st body) of
        (st1, Threw) \<Rightarrow> (st1, Threw)
      | (st1, Normal) \<Rightarrow> exec (k (next_eid st)) st1)"

fun run_jobs :: "eid list \<Rightarrow> rstate \<Rightarrow> rstate \<times> outcome" where
  "run_jobs [] st = (st, Normal)"
| "run_jobs (job # jobs) st =
     (case effects st job of
        None \<Rightarrow> (st, Threw)
      | Some r \<Rightarrow>
          (case effectFn job (exec (fn r)) st of
             (st1, Threw) \<Rightarrow> (st1, Threw)
           | (st1, Normal) \<Rightarrow> run_jobs jobs st1))"

definition flush :: "rstate \<Rightarrow> rstate \<times> outcome" where
  "flush st =
     (let jobs = updateQueue st;
          st1 = st\<lparr>updateQueue := [], isFlushPending := False\<rparr>
      in run_jobs jobs st1)"

definition run_microtask :: "rstate \<Rightarrow> (rstate \<times> outcome) option" where
  "run_microtask st =
     (if microtasks st = 0 then None
      else Some (flush (st\<lparr>microtasks := microtasks st - 1\<rparr>)))"

section \<open>Reactive core: invariants\<close>

text \<open>
  \<open>sched_inv\<close>: the pending set has no duplicates, and a flush callback is waiting
  exactly when the pending set is not empty. \<open>eff_inv\<close>: every effect that is queued,
  running or subscribed exists, and an effect subscribed to a dependency record has that
  record in its \<open>deps\<close>. \<open>proxy_inv\<close>: \<^verbatim>\<open>reactiveMap\<close> holds exactly the proxies that
  exist, each for a raw object. \<open>extends st st'\<close> relates a state to a later one within
  one synchronous run: effects keep their functions, proxies stay, the pending set only
  grows (by exactly the scheduled jobs), and only effects created in between are invoked.
\<close>

definition subscribers :: "rstate \<Rightarrow> addr \<times> key \<Rightarrow> eid list" where
  "subscribers st tk = (case targetMap st tk of None \<Rightarrow> [] | Some d \<Rightarrow> d)"

definition notify_list :: "rstate \<Rightarrow> addr \<times> key \<Rightarrow> eid list" where
  "notify_list st tk = filter (\<lambda>e. Some e \<noteq> currentEffect st) (subscribers st tk)"

definition sched_inv :: "rstate \<Rightarrow> bool" where
  "sched_inv st =
     (distinct (updateQueue st) \<and>
      (if isFlushPending st then microtasks st = 1 \<and> updateQueue st \<noteq> []
       else microtasks st = 0 \<and> updateQueue st = []))"

lemma set_set_add [simp]: "set (set_add xs x) = insert x (set xs)"
  by (auto simp: set_add_def)

lemma distinct_set_add [simp]: "distinct (set_add xs x) = distinct xs"
  by (auto simp: set_add_def)

lemma set_add_not_Nil [simp]: "set_add xs x \<noteq> []"
  by (auto simp: set_add_def)

lemma queueJob_fields [simp]:
  "heap (queueJob st j) = heap st"
  "next_addr (queueJob st j) = next_addr st"
  "reactiveMap (queueJob st j) = reactiveMap st"
  "parentMap (queueJob st j) = parentMap st"
  "targetMap (queueJob st j) = targetMap st"
  "effects (queueJob st j) = effects st"
  "next_eid (queueJob st j) = next_eid st"
  "currentEffect (queueJob st j) = currentEffect st"
  "updateQueue (queueJob st j) = set_add (updateQueue st) j"
  "trace (queueJob st j) = trace st @ [Schedule j]"
  "isFlushPending (queueJob st j) = True"
  by (simp_all add: queueJob_def Let_def)

lemma queueJob_sched_inv: "sched_inv st \<Longrightarrow> sched_inv (queueJob st j)"
  by (auto simp: sched_inv_def queueJob_def Let_def split: if_splits)

definition queueJobs :: "rstate \<Rightarrow> eid list \<Rightarrow> rstate" where
  "queueJobs st js = foldl queueJob st js"

lemma queueJobs_Nil [simp]: "queueJobs st [] = st"
  by (simp add: queueJobs_def)

lemma queueJobs_Cons [simp]: "queueJobs st (j # js) = queueJobs (queueJob st j) js"
  by (simp add: queueJobs_def)

lemma queueJobs_fields [simp]:
  "heap (queueJobs st js) = heap st"
  "next_addr (queueJobs st js) = next_addr st"
  "reactiveMap (queueJobs st js) = reactiveMap st"
  "parentMap (queueJobs st js) = parentMap st"
  "targetMap (queueJobs st js) = targetMap st"
  "effects (queueJobs st js) = effects st"
  "next_eid (queueJobs st js) = next_eid st"
  "currentEffect (queueJobs st js) = currentEffect st"
  "trace (queueJobs st js) = trace st @ map Schedule js"
  by (induction js arbitrary: st; simp)+

lemma queueJobs_queue:
  "set (updateQueue (queueJobs st js)) = set (updateQueue st) \<union> set js"
  by (induction js arbitrary: st) auto

lemma queueJobs_sched_inv: "sched_inv st \<Longrightarrow> sched_inv (queueJobs st js)"
  by (induction js arbitrary: st) (auto simp: queueJob_sched_inv)

lemma trigger_loop:
  "foldl (\<lambda>s effect. if Some effect \<noteq> currentEffect s then queueJob s effect else s) st d =
   queueJobs st (filter (\<lambda>e. Some e \<noteq> currentEffect st) d)"
  by (induction d arbitrary: st) auto

lemma trigger_eq:
  "trigger st target key =
     queueJobs (st\<lparr>trace := trace st @ [Notify target key]\<rparr>) (notify_list st (target, key))"
  by (simp add: trigger_def trigger_loop notify_list_def subscribers_def Let_def
      split: option.splits)

lemma trigger_fields [simp]:
  "heap (trigger st t k) = heap st"
  "next_addr (trigger st t k) = next_addr st"
  "reactiveMap (trigger st t k) = reactiveMap st"
  "parentMap (trigger st t k) = parentMap st"
  "targetMap (trigger st t k) = targetMap st"
  "effects (trigger st t k) = effects st"
  "next_eid (trigger st t k) = next_eid st"
  "currentEffect (trigger st t k) = currentEffect st"
  "trace (trigger st t k) = trace st @ Notify t k # map Schedule (notify_list st (t, k))"
  by (simp_all add: trigger_eq)

lemma trigger_queue:
  "set (updateQueue (trigger st t k)) = set (updateQueue st) \<union> set (notify_list st (t, k))"
  by (simp add: trigger_eq queueJobs_queue)

lemma sched_inv_trace [simp]: "sched_inv (st\<lparr>trace := tr\<rparr>) = sched_inv st"
  by (simp add: sched_inv_def)

lemma trigger_sched_inv: "sched_inv st \<Longrightarrow> sched_inv (trigger st t k)"
  by (simp add: trigger_eq queueJobs_sched_inv)

definition eff_dom :: "rstate \<Rightarrow> bool" where
  "eff_dom st = (\<forall>e. (effects st e \<noteq> None) = (e < next_eid st))"

definition queue_ok :: "rstate \<Rightarrow> bool" where
  "queue_ok st =
     ((\<forall>e \<in> set (updateQueue st). e < next_eid st) \<and>
      (\<forall>e. currentEffect st = Some e \<longrightarrow> e < next_eid st))"

definition dep_ok :: "rstate \<Rightarrow> bool" where
  "dep_ok st =
     (\<forall>tk. distinct (subscribers st tk) \<and>
        (\<forall>e \<in> set (subscribers st tk). \<exists>r. effects st e = Some r \<and> tk \<in> set (deps r)))"

definition eff_inv :: "rstate \<Rightarrow> bool" where
  "eff_inv st = (eff_dom st \<and> queue_ok st \<and> dep_ok st)"

definition proxy_inv :: "rstate \<Rightarrow> bool" where
  "proxy_inv st =
     ((\<forall>a p. (reactiveMap st a = Some p) = (heap st p = Some (Proxy a))) \<and>
      (\<forall>a. heap st a \<noteq> None \<longrightarrow> a < next_addr st) \<and>
      (\<forall>p a. heap st p = Some (Proxy a) \<longrightarrow> (\<exists>ob. heap st a = Some (Obj ob))))"

definition extends :: "rstate \<Rightarrow> rstate \<Rightarrow> bool" where
  "extends st st' =
     (next_eid st \<le> next_eid st' \<and>
      (\<forall>e r. effects st e = Some r \<longrightarrow> (\<exists>r'. effects st' e = Some r' \<and> fn r' = fn r)) \<and>
      (\<exists>new. trace st' = trace st @ new \<and>
         (\<forall>e. Execute e \<in> set new \<longrightarrow> next_eid st \<le> e) \<and>
         set (updateQueue st') = set (updateQueue st) \<union> {e. Schedule e \<in> set new}) \<and>
      (\<forall>p a. heap st p = Some (Proxy a) \<longrightarrow> heap st' p = Some (Proxy a)) \<and>
      (\<forall>a p. reactiveMap st a = Some p \<longrightarrow> reactiveMap st' a = Some p))"

lemma extends_refl [simp]: "extends st st"
  by (simp add: extends_def)

lemma extends_trans:
  assumes "extends a b" and "extends b c"
  shows "extends a c"
proof -
  from assms(1) obtain new1 where
    n1: "trace b = trace a @ new1"
      "\<forall>e. Execute e \<in> set new1 \<longrightarrow> next_eid a \<le> e"
      "set (updateQueue b) = set (updateQueue a) \<union> {e. Schedule e \<in> set new1}"
    unfolding extends_def by blast
  from assms(2) obtain new2 where
    n2: "trace c = trace b @ new2"
      "\<forall>e. Execute e \<in> set new2 \<longrightarrow> next_eid b \<le> e"
      "set (updateQueue c) = set (updateQueue b) \<union> {e. Schedule e \<in> set new2}"
    unfolding extends_def by blast
  have le: "next_eid a \<le> next_eid b" "next_eid b \<le> next_eid c"
    using assms unfolding extends_def by blast+
  have tr: "\<exists>new. trace c = trace a @ new \<and>
         (\<forall>e. Execute e \<in> set new \<longrightarrow> next_eid a \<le> e) \<and>
         set (updateQueue c) = set (updateQueue a) \<union> {e. Schedule e \<in> set new}"
  proof (intro exI [of _ "new1 @ new2"] conjI allI impI)
    show "trace c = trace a @ new1 @ new2" using n1(1) n2(1) by simp
  next
    fix e assume "Execute e \<in> set (new1 @ new2)"
    then show "next_eid a \<le> e" using n1(2) n2(2) le by fastforce
  next
    show "set (updateQueue c) = set (updateQueue a) \<union> {e. Schedule e \<in> set (new1 @ new2)}"
      unfolding n2(3) n1(3) by auto
  qed
  have eff: "\<forall>e r. effects a e = Some r \<longrightarrow> (\<exists>r'. effects c e = Some r' \<and> fn r' = fn r)"
  proof (intro allI impI)
    fix e r assume "effects a e = Some r"
    then obtain r1 where "effects b e = Some r1" "fn r1 = fn r"
      using assms(1) unfolding extends_def by blast
    moreover then obtain r2 where "effects c e = Some r2" "fn r2 = fn r1"
      using assms(2) unfolding extends_def by blast
    ultimately show "\<exists>r'. effects c e = Some r' \<and> fn r' = fn r" by simp
  qed
  have hp: "\<forall>p x. heap a p = Some (Proxy x) \<longrightarrow> heap c p = Some (Proxy x)"
    using assms unfolding extends_def by blast
  have rm: "\<forall>x p. reactiveMap a x = Some p \<longrightarrow> reactiveMap c x = Some p"
    using assms unfolding extends_def by blast
  show ?thesis
    unfolding extends_def using le tr eff hp rm by (simp; blast)
qed

lemma track_fields [simp]:
  "heap (track st t k) = heap st"
  "next_addr (track st t k) = next_addr st"
  "reactiveMap (track st t k) = reactiveMap st"
  "parentMap (track st t k) = parentMap st"
  "next_eid (track st t k) = next_eid st"
  "currentEffect (track st t k) = currentEffect st"
  "updateQueue (track st t k) = updateQueue st"
  "isFlushPending (track st t k) = isFlushPending st"
  "microtasks (track st t k) = microtasks st"
  "trace (track st t k) = trace st"
  by (simp_all add: track_def Let_def split: option.splits)

lemma track_sched_inv [simp]: "sched_inv (track st t k) = sched_inv st"
  by (simp add: sched_inv_def)

lemma track_subscribers:
  "subscribers (track st t k) tk =
     (case currentEffect st of
        None \<Rightarrow> subscribers st tk
      | Some c \<Rightarrow> if tk = (t, k) then set_add (subscribers st tk) c else subscribers st tk)"
  by (simp add: subscribers_def track_def Let_def split: option.splits)

lemma track_effects:
  "effects (track st t k) e =
     (case currentEffect st of
        None \<Rightarrow> effects st e
      | Some c \<Rightarrow>
          if e = c then map_option (\<lambda>r. r\<lparr>deps := deps r @ [(t, k)]\<rparr>) (effects st c)
          else effects st e)"
  by (simp add: track_def Let_def split: option.splits)

lemma track_eff_dom: "eff_dom st \<Longrightarrow> eff_dom (track st t k)"
  by (auto simp: eff_dom_def track_effects split: option.splits)

lemma track_queue_ok [simp]: "queue_ok (track st t k) = queue_ok st"
  by (simp add: queue_ok_def)

lemma track_dep_ok:
  assumes "eff_inv st"
  shows "dep_ok (track st t k)"
proof (cases "currentEffect st")
  case None
  with assms show ?thesis
    by (simp add: dep_ok_def eff_inv_def track_subscribers track_effects)
next
  case (Some c)
  with assms obtain rc where rc: "effects st c = Some rc"
    unfolding eff_inv_def eff_dom_def queue_ok_def by (metis option.exhaust)
  have old: "\<And>tk e. e \<in> set (subscribers st tk) \<Longrightarrow> \<exists>r. effects st e = Some r \<and> tk \<in> set (deps r)"
    and dist: "\<And>tk. distinct (subscribers st tk)"
    using assms unfolding eff_inv_def dep_ok_def by blast+
  show ?thesis
    unfolding dep_ok_def
  proof (intro allI conjI ballI)
    fix tk
    show "distinct (subscribers (track st t k) tk)"
      using dist by (simp add: track_subscribers Some)
  next
    fix tk e
    assume e: "e \<in> set (subscribers (track st t k) tk)"
    show "\<exists>r. effects (track st t k) e = Some r \<and> tk \<in> set (deps r)"
    proof (cases "e \<in> set (subscribers st tk)")
      case True
      from old [OF True] obtain r where "effects st e = Some r" "tk \<in> set (deps r)" by blast
      then show ?thesis by (auto simp: track_effects Some)
    next
      case False
      with e have "tk = (t, k)" "e = c"
        by (auto simp: track_subscribers Some split: if_splits)
      then show ?thesis by (simp add: track_effects Some rc)
    qed
  qed
qed

lemma track_eff_inv: "eff_inv st \<Longrightarrow> eff_inv (track st t k)"
  using track_dep_ok [of st t k] by (simp add: eff_inv_def track_eff_dom)

lemma track_extends: "extends st (track st t k)"
  unfolding extends_def
  by (auto simp: track_def Let_def split: option.splits)

lemma track_target_obj [simp]: "target_obj (track st t k) a = target_obj st a"
  by (simp add: target_obj_def)

lemma track_proxy_inv [simp]: "proxy_inv (track st t k) = proxy_inv st"
  by (simp add: proxy_inv_def)

definition detach :: "eid \<Rightarrow> ((addr \<times> key) \<rightharpoonup> eid list) \<Rightarrow> (addr \<times> key) list \<Rightarrow> ((addr \<times> key) \<rightharpoonup> eid list)" where
  "detach e m ds = (\<lambda>tk. if tk \<in> set ds then map_option (\<lambda>d. removeAll e d) (m tk) else m tk)"

lemma cleanup_loop:
  "foldl (\<lambda>s dep. case targetMap s dep of None \<Rightarrow> s
        | Some d \<Rightarrow> s\<lparr>targetMap := (targetMap s)(dep \<mapsto> set_delete d e)\<rparr>) st ds =
   st\<lparr>targetMap := detach e (targetMap st) ds\<rparr>"
proof (induction ds arbitrary: st)
  case Nil
  show ?case by (simp add: detach_def)
next
  case (Cons a ds)
  show ?case
    apply (simp add: Cons.IH split: option.splits)
    apply (auto simp: detach_def set_delete_def fun_eq_iff intro!: rstate.equality)
    done
qed

lemma cleanupEffect_eq:
  "cleanupEffect st e =
     (case effects st e of None \<Rightarrow> st
      | Some r \<Rightarrow> st\<lparr>targetMap := detach e (targetMap st) (deps r),
                     effects := (effects st)(e \<mapsto> r\<lparr>deps := []\<rparr>)\<rparr>)"
  by (simp add: cleanupEffect_def cleanup_loop Let_def split: option.splits)

lemma cleanupEffect_fields [simp]:
  "heap (cleanupEffect st e) = heap st"
  "next_addr (cleanupEffect st e) = next_addr st"
  "reactiveMap (cleanupEffect st e) = reactiveMap st"
  "parentMap (cleanupEffect st e) = parentMap st"
  "next_eid (cleanupEffect st e) = next_eid st"
  "currentEffect (cleanupEffect st e) = currentEffect st"
  "updateQueue (cleanupEffect st e) = updateQueue st"
  "isFlushPending (cleanupEffect st e) = isFlushPending st"
  "microtasks (cleanupEffect st e) = microtasks st"
  "trace (cleanupEffect st e) = trace st"
  by (simp_all add: cleanupEffect_eq split: option.splits)

lemma cleanupEffect_sched_inv [simp]: "sched_inv (cleanupEffect st e) = sched_inv st"
  by (simp add: sched_inv_def)

lemma cleanupEffect_proxy_inv [simp]: "proxy_inv (cleanupEffect st e) = proxy_inv st"
  by (simp add: proxy_inv_def)

lemma cleanupEffect_subscribers:
  "subscribers (cleanupEffect st e) tk =
     (case effects st e of
        None \<Rightarrow> subscribers st tk
      | Some r \<Rightarrow> if tk \<in> set (deps r) then removeAll e (subscribers st tk)
                  else subscribers st tk)"
  by (auto simp: cleanupEffect_eq subscribers_def detach_def split: option.splits)

lemma cleanupEffect_effects:
  "effects (cleanupEffect st e) x =
     (if x = e then map_option (\<lambda>r. r\<lparr>deps := []\<rparr>) (effects st e) else effects st x)"
  by (auto simp: cleanupEffect_eq split: option.splits)

lemma cleanupEffect_eff_dom: "eff_dom st \<Longrightarrow> eff_dom (cleanupEffect st e)"
  by (auto simp: eff_dom_def cleanupEffect_effects)

lemma cleanupEffect_queue_ok [simp]: "queue_ok (cleanupEffect st e) = queue_ok st"
  by (simp add: queue_ok_def)

lemma cleanupEffect_detached:
  assumes "dep_ok st"
  shows "e \<notin> set (subscribers (cleanupEffect st e) tk)"
proof
  assume a: "e \<in> set (subscribers (cleanupEffect st e) tk)"
  show False
  proof (cases "effects st e")
    case None
    with a have "e \<in> set (subscribers st tk)" by (simp add: cleanupEffect_subscribers)
    with assms None show False unfolding dep_ok_def by fastforce
  next
    case (Some r)
    with a have in_old: "e \<in> set (subscribers st tk)" and "tk \<notin> set (deps r)"
      by (auto simp: cleanupEffect_subscribers split: if_splits)
    moreover from assms in_old Some have "tk \<in> set (deps r)"
      unfolding dep_ok_def by fastforce
    ultimately show False by simp
  qed
qed

lemma cleanupEffect_dep_ok:
  assumes "dep_ok st"
  shows "dep_ok (cleanupEffect st e)"
  unfolding dep_ok_def
proof (intro allI conjI ballI)
  fix tk
  have "distinct (subscribers st tk)" using assms unfolding dep_ok_def by blast
  then show "distinct (subscribers (cleanupEffect st e) tk)"
    by (simp add: cleanupEffect_subscribers distinct_removeAll split: option.splits)
next
  fix tk x
  assume x: "x \<in> set (subscribers (cleanupEffect st e) tk)"
  then have ne: "x \<noteq> e" using cleanupEffect_detached [OF assms] by blast
  from x have "x \<in> set (subscribers st tk)"
    by (auto simp: cleanupEffect_subscribers split: option.splits if_splits)
  with assms obtain r where "effects st x = Some r" "tk \<in> set (deps r)"
    unfolding dep_ok_def by blast
  with ne show "\<exists>r. effects (cleanupEffect st e) x = Some r \<and> tk \<in> set (deps r)"
    by (simp add: cleanupEffect_effects)
qed

lemma cleanupEffect_eff_inv: "eff_inv st \<Longrightarrow> eff_inv (cleanupEffect st e)"
  by (simp add: eff_inv_def cleanupEffect_eff_dom cleanupEffect_dep_ok)

lemma cleanupEffect_extends: "extends st (cleanupEffect st e)"
  unfolding extends_def
  by (auto simp: cleanupEffect_eq split: option.splits)

lemma eff_dom_cong: "effects st' = effects st \<Longrightarrow> next_eid st' = next_eid st \<Longrightarrow> eff_dom st' = eff_dom st"
  by (simp add: eff_dom_def)

lemma dep_ok_cong: "targetMap st' = targetMap st \<Longrightarrow> effects st' = effects st \<Longrightarrow> dep_ok st' = dep_ok st"
  by (simp add: dep_ok_def subscribers_def)

lemma queue_ok_cong:
  "updateQueue st' = updateQueue st \<Longrightarrow> currentEffect st' = currentEffect st \<Longrightarrow>
   next_eid st' = next_eid st \<Longrightarrow> queue_ok st' = queue_ok st"
  by (simp add: queue_ok_def)

lemma eff_inv_cong:
  "targetMap st' = targetMap st \<Longrightarrow> effects st' = effects st \<Longrightarrow> next_eid st' = next_eid st \<Longrightarrow>
   updateQueue st' = updateQueue st \<Longrightarrow> currentEffect st' = currentEffect st \<Longrightarrow>
   eff_inv st' = eff_inv st"
  using eff_dom_cong [of st' st] dep_ok_cong [of st' st] queue_ok_cong [of st' st]
  by (simp add: eff_inv_def)

lemma sched_inv_cong:
  "updateQueue st' = updateQueue st \<Longrightarrow> isFlushPending st' = isFlushPending st \<Longrightarrow>
   microtasks st' = microtasks st \<Longrightarrow> sched_inv st' = sched_inv st"
  by (simp add: sched_inv_def)

lemma proxy_inv_cong:
  "heap st' = heap st \<Longrightarrow> reactiveMap st' = reactiveMap st \<Longrightarrow> next_addr st' = next_addr st \<Longrightarrow>
   proxy_inv st' = proxy_inv st"
  by (simp add: proxy_inv_def)

lemma subscribers_cong: "targetMap st' = targetMap st \<Longrightarrow> subscribers st' = subscribers st"
  by (simp add: subscribers_def fun_eq_iff)

lemma notify_list_cong:
  "targetMap st' = targetMap st \<Longrightarrow> currentEffect st' = currentEffect st \<Longrightarrow>
   notify_list st' = notify_list st"
  using subscribers_cong [of st' st] by (simp add: notify_list_def fun_eq_iff)

lemma subscribers_known:
  assumes "eff_inv st" and "e \<in> set (subscribers st tk)"
  shows "e < next_eid st"
proof -
  from assms obtain r where "effects st e = Some r"
    unfolding eff_inv_def dep_ok_def by blast
  with assms(1) show ?thesis unfolding eff_inv_def eff_dom_def by (metis option.distinct(1))
qed

lemma trigger_eff_inv:
  assumes "eff_inv st"
  shows "eff_inv (trigger st t k)"
proof -
  have "queue_ok (trigger st t k)"
    using assms subscribers_known [OF assms]
    by (auto simp: queue_ok_def trigger_queue notify_list_def eff_inv_def)
  moreover have "dep_ok (trigger st t k) = dep_ok st" by (rule dep_ok_cong) simp_all
  moreover have "eff_dom (trigger st t k) = eff_dom st" by (rule eff_dom_cong) simp_all
  ultimately show ?thesis using assms by (simp add: eff_inv_def)
qed

lemma trigger_proxy_inv [simp]: "proxy_inv (trigger st t k) = proxy_inv st"
  by (rule proxy_inv_cong) simp_all

lemma trigger_extends: "extends st (trigger st t k)"
  unfolding extends_def by (auto simp: trigger_queue)

lemma extends_queue_mono: "extends a b \<Longrightarrow> set (updateQueue a) \<subseteq> set (updateQueue b)"
  unfolding extends_def by auto

lemma trigger_subscribers [simp]: "subscribers (trigger st t k) = subscribers st"
  by (rule subscribers_cong) simp

lemma trigger_notify_list [simp]: "notify_list (trigger st t k) = notify_list st"
  by (rule notify_list_cong) simp_all

lemma trigger_target_obj [simp]: "target_obj (trigger st t k) a = target_obj st a"
  by (simp add: target_obj_def)

lemma set_parent_fields [simp]:
  "heap (set_parent st a par) = heap st"
  "next_addr (set_parent st a par) = next_addr st"
  "reactiveMap (set_parent st a par) = reactiveMap st"
  "targetMap (set_parent st a par) = targetMap st"
  "effects (set_parent st a par) = effects st"
  "next_eid (set_parent st a par) = next_eid st"
  "currentEffect (set_parent st a par) = currentEffect st"
  "updateQueue (set_parent st a par) = updateQueue st"
  "isFlushPending (set_parent st a par) = isFlushPending st"
  "microtasks (set_parent st a par) = microtasks st"
  "trace (set_parent st a par) = trace st"
  by (simp_all add: set_parent_def split: option.splits)

lemma reactive_fields [simp]:
  "targetMap (fst (reactive st v par)) = targetMap st"
  "effects (fst (reactive st v par)) = effects st"
  "next_eid (fst (reactive st v par)) = next_eid st"
  "currentEffect (fst (reactive st v par)) = currentEffect st"
  "updateQueue (fst (reactive st v par)) = updateQueue st"
  "isFlushPending (fst (reactive st v par)) = isFlushPending st"
  "microtasks (fst (reactive st v par)) = microtasks st"
  "trace (fst (reactive st v par)) = trace st"
  by (simp_all add: reactive_def Let_def split: val.splits option.splits cell.splits)

lemma reactive_eff_inv [simp]: "eff_inv (fst (reactive st v par)) = eff_inv st"
  by (rule eff_inv_cong) simp_all

lemma reactive_sched_inv [simp]: "sched_inv (fst (reactive st v par)) = sched_inv st"
  by (rule sched_inv_cong) simp_all

definition creates :: "rstate \<Rightarrow> val \<Rightarrow> addr \<Rightarrow> jsobj \<Rightarrow> bool" where
  "creates st v a ob =
     (v = Ref a \<and> heap st a = Some (Obj ob) \<and> \<not> truthy (raw_get ob ''__isReactive'') \<and>
      reactiveMap st a = None)"

lemma reactive_cases:
  obtains (same) "reactive st v par = (st, v)"
  | (cached) a p where "v = Ref a" "reactiveMap st a = Some p"
      "reactive st v par = (set_parent st a par, Ref p)"
  | (fresh) a ob where "creates st v a ob"
proof (cases v)
  case (Ref a)
  show ?thesis
  proof (cases "heap st a")
    case None
    with Ref show ?thesis by (intro same) (simp add: reactive_def)
  next
    case (Some c)
    show ?thesis
    proof (cases c)
      case (Proxy t)
      with Ref Some show ?thesis by (intro same) (simp add: reactive_def)
    next
      case (Obj ob)
      show ?thesis
      proof (cases "truthy (raw_get ob ''__isReactive'')")
        case True
        with Ref Some Obj show ?thesis by (intro same) (simp add: reactive_def)
      next
        case False
        show ?thesis
        proof (cases "reactiveMap st a")
          case None
          with Ref Some Obj False show ?thesis by (intro fresh [of a ob]) (simp add: creates_def)
        next
          case (Some p)
          with Ref \<open>heap st a = Some c\<close> Obj False show ?thesis
            by (intro cached [of a p]) (simp_all add: reactive_def)
        qed
      qed
    qed
  qed
qed (simp_all add: reactive_def)

lemma reactive_no_create:
  assumes "\<And>a ob. \<not> creates st v a ob"
  shows "heap (fst (reactive st v par)) = heap st"
    and "reactiveMap (fst (reactive st v par)) = reactiveMap st"
    and "next_addr (fst (reactive st v par)) = next_addr st"
proof -
  have "heap (fst (reactive st v par)) = heap st \<and>
        reactiveMap (fst (reactive st v par)) = reactiveMap st \<and>
        next_addr (fst (reactive st v par)) = next_addr st"
  proof (cases rule: reactive_cases [of st v par])
    case same
    then show ?thesis by simp
  next
    case (cached a p)
    then show ?thesis by simp
  next
    case (fresh a ob)
    with assms show ?thesis by blast
  qed
  then show "heap (fst (reactive st v par)) = heap st"
    and "reactiveMap (fst (reactive st v par)) = reactiveMap st"
    and "next_addr (fst (reactive st v par)) = next_addr st" by simp_all
qed

lemma reactive_create:
  assumes "creates st v a ob"
  shows "heap (fst (reactive st v par)) =
           (heap st)(next_addr st \<mapsto> Proxy a,
              a \<mapsto> Obj (if is_array ob then install_interceptors a ob else ob))"
    and "reactiveMap (fst (reactive st v par)) = (reactiveMap st)(a \<mapsto> next_addr st)"
    and "next_addr (fst (reactive st v par)) = Suc (next_addr st)"
    and "snd (reactive st v par) = Ref (next_addr st)"
  using assms
  by (auto simp: reactive_def creates_def Let_def split: val.splits option.splits cell.splits)

lemma proxy_inv_fresh: "proxy_inv st \<Longrightarrow> heap st (next_addr st) = None"
  unfolding proxy_inv_def by (metis less_irrefl)

lemma reactive_proxy_inv:
  assumes "proxy_inv st"
  shows "proxy_inv (fst (reactive st v par))"
proof (cases "\<exists>a ob. creates st v a ob")
  case False
  then have "\<And>a ob. \<not> creates st v a ob" by blast
  from reactive_no_create [OF this] assms show ?thesis
    by (simp add: proxy_inv_def)
next
  case True
  then obtain a ob where c: "creates st v a ob" by blast
  note f = reactive_create [OF c, of par]
  have fresh: "heap st (next_addr st) = None" by (rule proxy_inv_fresh [OF assms])
  have a: "heap st a = Some (Obj ob)" "reactiveMap st a = None"
    using c by (simp_all add: creates_def)
  have ne: "a \<noteq> next_addr st" using fresh a by auto
  have nop: "\<And>p. heap st p \<noteq> Some (Proxy a)"
    using assms a(2) unfolding proxy_inv_def by (metis option.distinct(1))
  have i1: "\<And>x p. (reactiveMap st x = Some p) = (heap st p = Some (Proxy x))"
    and i2: "\<And>x. heap st x \<noteq> None \<Longrightarrow> x < next_addr st"
    and i3: "\<And>p x. heap st p = Some (Proxy x) \<Longrightarrow> \<exists>ob. heap st x = Some (Obj ob)"
    using assms unfolding proxy_inv_def by blast+
  show ?thesis
    unfolding proxy_inv_def f
  proof (intro conjI allI impI)
    fix x p
    show "(((reactiveMap st)(a \<mapsto> next_addr st)) x = Some p) =
          (((heap st)(next_addr st \<mapsto> Proxy a,
              a \<mapsto> Obj (if is_array ob then install_interceptors a ob else ob))) p =
           Some (Proxy x))"
    proof (cases "x = a")
      case True
      then show ?thesis using a nop ne by auto
    next
      case False
      then show ?thesis using i1 [of x p] fresh a
        by (cases "p = next_addr st"; cases "p = a"; simp)
    qed
  next
    fix x
    assume "((heap st)(next_addr st \<mapsto> Proxy a,
              a \<mapsto> Obj (if is_array ob then install_interceptors a ob else ob))) x \<noteq> None"
    then show "x < Suc (next_addr st)"
      using i2 [of x] i2 [of a] a by (cases "x = a"; cases "x = next_addr st"; simp add: less_Suc_eq)
  next
    fix p x
    assume h: "((heap st)(next_addr st \<mapsto> Proxy a,
              a \<mapsto> Obj (if is_array ob then install_interceptors a ob else ob))) p =
           Some (Proxy x)"
    show "\<exists>ob'. ((heap st)(next_addr st \<mapsto> Proxy a,
              a \<mapsto> Obj (if is_array ob then install_interceptors a ob else ob))) x =
           Some (Obj ob')"
    proof (cases "p = next_addr st")
      case True
      with h ne have "x = a" by (simp split: if_splits)
      then show ?thesis by simp
    next
      case False
      with h have hp: "heap st p = Some (Proxy x)" by (simp split: if_splits)
      from i3 [OF hp] obtain ob0 where "heap st x = Some (Obj ob0)" by blast
      with fresh show ?thesis by (cases "x = a"; cases "x = next_addr st"; simp)
    qed
  qed
qed

lemma extends_heapI:
  assumes "next_eid st' = next_eid st" "effects st' = effects st"
    "updateQueue st' = updateQueue st" "trace st' = trace st"
    "\<And>p a. heap st p = Some (Proxy a) \<Longrightarrow> heap st' p = Some (Proxy a)"
    "\<And>a p. reactiveMap st a = Some p \<Longrightarrow> reactiveMap st' a = Some p"
  shows "extends st st'"
  unfolding extends_def using assms by simp

lemma reactive_extends:
  assumes "proxy_inv st"
  shows "extends st (fst (reactive st v par))"
proof (cases "\<exists>a ob. creates st v a ob")
  case False
  then have "\<And>a ob. \<not> creates st v a ob" by blast
  from reactive_no_create [OF this] show ?thesis
    by (intro extends_heapI) simp_all
next
  case True
  then obtain a ob where c: "creates st v a ob" by blast
  note f = reactive_create [OF c, of par]
  have fresh: "heap st (next_addr st) = None" by (rule proxy_inv_fresh [OF assms])
  have a: "heap st a = Some (Obj ob)" "reactiveMap st a = None"
    using c by (simp_all add: creates_def)
  show ?thesis
  proof (intro extends_heapI)
    fix p x assume "heap st p = Some (Proxy x)"
    with fresh a show "heap (fst (reactive st v par)) p = Some (Proxy x)"
      unfolding f by (cases "p = a"; cases "p = next_addr st"; simp)
  next
    fix x p assume "reactiveMap st x = Some p"
    with a show "reactiveMap (fst (reactive st v par)) x = Some p"
      unfolding f by (cases "x = a"; simp)
  qed simp_all
qed

definition wf :: "rstate \<Rightarrow> bool" where
  "wf st = (sched_inv st \<and> eff_inv st \<and> proxy_inv st)"

definition step :: "rstate \<Rightarrow> rstate \<Rightarrow> bool" where
  "step st st' = (wf st' \<and> extends st st' \<and> currentEffect st' = currentEffect st)"

lemma step_refl: "wf st \<Longrightarrow> step st st"
  by (simp add: step_def)

lemma step_trans: "step a b \<Longrightarrow> step b c \<Longrightarrow> step a c"
  unfolding step_def using extends_trans by auto

lemma step_wf: "step a b \<Longrightarrow> wf b"
  by (simp add: step_def)

lemma trigger_step: "wf st \<Longrightarrow> step st (trigger st t k)"
  by (simp add: wf_def step_def trigger_sched_inv trigger_eff_inv trigger_extends)

lemma track_step: "wf st \<Longrightarrow> step st (track st t k)"
  by (simp add: wf_def step_def track_eff_inv track_extends)

lemma reactive_step: "wf st \<Longrightarrow> step st (fst (reactive st v par))"
  by (simp add: wf_def step_def reactive_proxy_inv reactive_extends)

lemma heap_write_fields:
  "eff_inv (st\<lparr>heap := h\<rparr>) = eff_inv st"
  "sched_inv (st\<lparr>heap := h\<rparr>) = sched_inv st"
  by (rule eff_inv_cong, simp_all)
     (rule sched_inv_cong, simp_all)

lemma heap_write_proxy_inv:
  assumes "proxy_inv st" "heap st a = Some (Obj ob)"
  shows "proxy_inv (st\<lparr>heap := (heap st)(a \<mapsto> Obj ob')\<rparr>)"
proof -
  have i1: "\<And>x p. (reactiveMap st x = Some p) = (heap st p = Some (Proxy x))"
    and i2: "\<And>x. heap st x \<noteq> None \<Longrightarrow> x < next_addr st"
    and i3: "\<And>p x. heap st p = Some (Proxy x) \<Longrightarrow> \<exists>ob. heap st x = Some (Obj ob)"
    using assms(1) unfolding proxy_inv_def by blast+
  show ?thesis
    unfolding proxy_inv_def
  proof (intro conjI allI impI)
    fix x p
    show "(reactiveMap (st\<lparr>heap := (heap st)(a \<mapsto> Obj ob')\<rparr>) x = Some p) =
          (heap (st\<lparr>heap := (heap st)(a \<mapsto> Obj ob')\<rparr>) p = Some (Proxy x))"
      using i1 [of x p] assms(2) by (cases "p = a"; simp)
  next
    fix x assume "heap (st\<lparr>heap := (heap st)(a \<mapsto> Obj ob')\<rparr>) x \<noteq> None"
    then show "x < next_addr (st\<lparr>heap := (heap st)(a \<mapsto> Obj ob')\<rparr>)"
      using i2 [of x] assms(2) by (cases "x = a"; simp)
  next
    fix p x assume "heap (st\<lparr>heap := (heap st)(a \<mapsto> Obj ob')\<rparr>) p = Some (Proxy x)"
    then have "heap st p = Some (Proxy x)" by (cases "p = a"; simp)
    from i3 [OF this] show "\<exists>ob0. heap (st\<lparr>heap := (heap st)(a \<mapsto> Obj ob')\<rparr>) x = Some (Obj ob0)"
      by (cases "x = a"; simp)
  qed
qed

lemma heap_write_step:
  assumes "wf st" "heap st a = Some (Obj ob)"
  shows "step st (st\<lparr>heap := (heap st)(a \<mapsto> Obj ob')\<rparr>)"
proof -
  have "extends st (st\<lparr>heap := (heap st)(a \<mapsto> Obj ob')\<rparr>)"
    using assms(2) by (intro extends_heapI) auto
  with assms show ?thesis
    by (simp add: wf_def step_def heap_write_fields heap_write_proxy_inv)
qed

lemma heap_alloc_proxy_inv:
  assumes "proxy_inv st"
  shows "proxy_inv (st\<lparr>heap := (heap st)(next_addr st \<mapsto> Obj ob), next_addr := Suc (next_addr st)\<rparr>)"
proof -
  have i1: "\<And>x p. (reactiveMap st x = Some p) = (heap st p = Some (Proxy x))"
    and i2: "\<And>x. heap st x \<noteq> None \<Longrightarrow> x < next_addr st"
    and i3: "\<And>p x. heap st p = Some (Proxy x) \<Longrightarrow> \<exists>ob. heap st x = Some (Obj ob)"
    using assms(1) unfolding proxy_inv_def by blast+
  have fresh: "heap st (next_addr st) = None" by (rule proxy_inv_fresh [OF assms])
  show ?thesis
    unfolding proxy_inv_def
  proof (intro conjI allI impI)
    fix x p
    show "(reactiveMap (st\<lparr>heap := (heap st)(next_addr st \<mapsto> Obj ob), next_addr := Suc (next_addr st)\<rparr>) x = Some p) =
          (heap (st\<lparr>heap := (heap st)(next_addr st \<mapsto> Obj ob), next_addr := Suc (next_addr st)\<rparr>) p = Some (Proxy x))"
      using i1 [of x p] fresh by (cases "p = next_addr st"; simp)
  next
    fix x assume "heap (st\<lparr>heap := (heap st)(next_addr st \<mapsto> Obj ob), next_addr := Suc (next_addr st)\<rparr>) x \<noteq> None"
    then show "x < next_addr (st\<lparr>heap := (heap st)(next_addr st \<mapsto> Obj ob), next_addr := Suc (next_addr st)\<rparr>)"
      using i2 [of x] by (cases "x = next_addr st"; simp add: less_Suc_eq)
  next
    fix p x assume "heap (st\<lparr>heap := (heap st)(next_addr st \<mapsto> Obj ob), next_addr := Suc (next_addr st)\<rparr>) p = Some (Proxy x)"
    then have "heap st p = Some (Proxy x)" by (cases "p = next_addr st"; simp)
    from i3 [OF this] obtain ob0 where "heap st x = Some (Obj ob0)" by blast
    with fresh show "\<exists>ob0. heap (st\<lparr>heap := (heap st)(next_addr st \<mapsto> Obj ob), next_addr := Suc (next_addr st)\<rparr>) x = Some (Obj ob0)"
      by (cases "x = next_addr st"; simp)
  qed
qed

lemma heap_alloc_step:
  assumes "wf st"
  shows "step st (st\<lparr>heap := (heap st)(next_addr st \<mapsto> Obj ob), next_addr := Suc (next_addr st)\<rparr>)"
proof -
  have fresh: "heap st (next_addr st) = None"
    using assms by (simp add: wf_def proxy_inv_fresh)
  have "extends st (st\<lparr>heap := (heap st)(next_addr st \<mapsto> Obj ob), next_addr := Suc (next_addr st)\<rparr>)"
    using fresh by (intro extends_heapI) auto
  moreover have "eff_inv (st\<lparr>heap := (heap st)(next_addr st \<mapsto> Obj ob), next_addr := Suc (next_addr st)\<rparr>) = eff_inv st"
    by (rule eff_inv_cong) simp_all
  moreover have "sched_inv (st\<lparr>heap := (heap st)(next_addr st \<mapsto> Obj ob), next_addr := Suc (next_addr st)\<rparr>) = sched_inv st"
    by (rule sched_inv_cong) simp_all
  ultimately show ?thesis using assms
    by (simp add: wf_def step_def heap_alloc_proxy_inv)
qed

lemma proxy_get_step:
  assumes "wf st"
  shows "step st (fst (proxy_get st target key))"
proof -
  have s1: "step st (track st target key)" by (rule track_step [OF assms])
  let ?st2 = "if is_array (target_obj (track st target key) target)
              then track (track st target key) target ''__array__'' else track st target key"
  have s2: "step st ?st2"
    using s1 track_step [OF step_wf [OF s1], of target "''__array__''"]
    by (auto intro: step_trans)
  have s3: "\<And>v. step st (fst (reactive ?st2 v (Some (target, key))))"
    using reactive_step [OF step_wf [OF s2]] s2 by (blast intro: step_trans)
  show ?thesis
    using assms s2 s3
    by (simp add: proxy_get_def Let_def step_refl)
qed

lemma proxy_set_step:
  assumes "wf st" "heap st target = Some (Obj ob)"
  shows "step st (proxy_set st target key v)"
proof -
  let ?st1 = "st\<lparr>heap := (heap st)(target \<mapsto> Obj (raw_set (target_obj st target) key v))\<rparr>"
  have s1: "step st ?st1" by (rule heap_write_step [OF assms])
  let ?st2 = "trigger ?st1 target key"
  have s2: "step st ?st2" using s1 trigger_step [OF step_wf [OF s1]] by (blast intro: step_trans)
  let ?st3 = "if is_array (target_obj ?st2 target) \<and> key = ''length''
              then trigger ?st2 target ''__array__'' else ?st2"
  have s3: "step st ?st3"
    using s2 trigger_step [OF step_wf [OF s2], of target "''__array__''"]
    by (auto intro: step_trans)
  have s4: "\<And>pt pk. step st (trigger ?st3 pt pk)"
    using s3 trigger_step [OF step_wf [OF s3]] by (blast intro: step_trans)
  show ?thesis
    unfolding proxy_set_def Let_def
    using s1 s3 s4 by (auto split: option.splits)
qed

lemma array_interceptor_step:
  assumes "wf st" "array_interceptor st obj this original = Some (st', v)"
  shows "step st st'"
proof -
  from assms(2) obtain raw ob where raw: "this_raw st this obj = Some raw"
    and ob: "heap st raw = Some (Obj ob)"
    by (auto simp: array_interceptor_def split: option.splits cell.splits)
  obtain ob' res where orig: "original ob = (ob', res)" by (cases "original ob")
  let ?st1 = "st\<lparr>heap := (heap st)(raw \<mapsto> Obj ob')\<rparr>"
  have s1: "step st ?st1" by (rule heap_write_step [OF assms(1) ob])
  let ?st2 = "trigger ?st1 obj ''__array__''"
  have s2: "step st ?st2" using s1 trigger_step [OF step_wf [OF s1]] by (blast intro: step_trans)
  let ?st3 = "trigger ?st2 obj ''length''"
  have s3: "step st ?st3" using s2 trigger_step [OF step_wf [OF s2]] by (blast intro: step_trans)
  have s4: "\<And>pt pk. step st (trigger ?st3 pt pk)"
    using s3 trigger_step [OF step_wf [OF s3]] by (blast intro: step_trans)
  from assms(2) raw ob orig have
    "st' = (case parentMap ?st3 obj of None \<Rightarrow> ?st3 | Some (pt, pk) \<Rightarrow> trigger ?st3 pt pk)"
    by (auto simp: array_interceptor_def Let_def)
  then show ?thesis using s3 s4 by (auto split: option.splits)
qed

lemma read_prop_step:
  assumes "wf st" "read_prop st x key = Some (st', v)"
  shows "step st st'"
  using assms proxy_get_step [OF assms(1)]
  by (auto simp: read_prop_def step_refl split: option.splits cell.splits)
     (metis fst_conv)

lemma write_prop_step:
  assumes "wf st" "write_prop st x key v = Some st'"
  shows "step st st'"
proof (cases "heap st x")
  case None
  with assms show ?thesis by (simp add: write_prop_def)
next
  case (Some c)
  show ?thesis
  proof (cases c)
    case (Obj ob)
    with Some assms heap_write_step [OF assms(1), of x ob] show ?thesis
      by (auto simp: write_prop_def)
  next
    case (Proxy t)
    with Some assms(1) obtain ob where "heap st t = Some (Obj ob)"
      unfolding wf_def proxy_inv_def by blast
    from proxy_set_step [OF assms(1) this] Proxy Some assms(2) show ?thesis
      by (auto simp: write_prop_def)
  qed
qed

lemma call_method_step:
  assumes "wf st" "call_method st x m original = Some (st', v)"
  shows "step st st'"
proof -
  from assms(2) obtain st1 obj mth where r: "read_prop st x m = Some (st1, Interceptor obj mth)"
    and a: "array_interceptor st1 obj x original = Some (st', v)"
    by (auto simp: call_method_def split: option.splits val.splits prod.splits)
  have s1: "step st st1" by (rule read_prop_step [OF assms(1) r])
  from array_interceptor_step [OF step_wf [OF s1] a] s1 show ?thesis
    by (blast intro: step_trans)
qed

lemma new_effect_wf:
  assumes "wf st"
  shows "wf (new_effect st body)"
proof -
  have d: "eff_dom (new_effect st body)"
    using assms unfolding wf_def eff_inv_def eff_dom_def new_effect_def
    by (auto simp: less_Suc_eq)
  have q: "queue_ok (new_effect st body)"
    using assms unfolding wf_def eff_inv_def queue_ok_def new_effect_def
    by (auto simp: less_Suc_eq)
  have fresh: "effects st (next_eid st) = None"
    using assms unfolding wf_def eff_inv_def eff_dom_def by (metis less_irrefl)
  have old: "\<And>tk e. e \<in> set (subscribers st tk) \<Longrightarrow> \<exists>r. effects st e = Some r \<and> tk \<in> set (deps r)"
    and dist: "\<And>tk. distinct (subscribers st tk)"
    using assms unfolding wf_def eff_inv_def dep_ok_def by blast+
  have sub: "subscribers (new_effect st body) = subscribers st"
    by (rule subscribers_cong) (simp add: new_effect_def)
  have dp: "dep_ok (new_effect st body)"
    unfolding dep_ok_def sub
  proof (intro allI conjI ballI)
    fix tk show "distinct (subscribers st tk)" by (rule dist)
  next
    fix tk e assume "e \<in> set (subscribers st tk)"
    from old [OF this] obtain r where r: "effects st e = Some r" "tk \<in> set (deps r)" by blast
    with fresh have "e \<noteq> next_eid st" by auto
    with r show "\<exists>r. effects (new_effect st body) e = Some r \<and> tk \<in> set (deps r)"
      by (simp add: new_effect_def)
  qed
  have "sched_inv (new_effect st body) = sched_inv st"
    by (rule sched_inv_cong) (simp_all add: new_effect_def)
  moreover have "proxy_inv (new_effect st body) = proxy_inv st"
    by (rule proxy_inv_cong) (simp_all add: new_effect_def)
  ultimately show ?thesis using assms d q dp by (simp add: wf_def eff_inv_def)
qed

lemma set_current_wf:
  assumes "wf st" "\<And>e. c = Some e \<Longrightarrow> e < next_eid st"
  shows "wf (st\<lparr>currentEffect := c, trace := tr\<rparr>)"
proof -
  have "sched_inv (st\<lparr>currentEffect := c, trace := tr\<rparr>) = sched_inv st"
    by (rule sched_inv_cong) simp_all
  moreover have "proxy_inv (st\<lparr>currentEffect := c, trace := tr\<rparr>) = proxy_inv st"
    by (rule proxy_inv_cong) simp_all
  moreover have "eff_dom (st\<lparr>currentEffect := c, trace := tr\<rparr>) = eff_dom st"
    by (rule eff_dom_cong) simp_all
  moreover have "dep_ok (st\<lparr>currentEffect := c, trace := tr\<rparr>) = dep_ok st"
    by (rule dep_ok_cong) simp_all
  moreover have "queue_ok (st\<lparr>currentEffect := c, trace := tr\<rparr>)"
    using assms unfolding wf_def eff_inv_def queue_ok_def by auto
  ultimately show ?thesis using assms(1) by (simp add: wf_def eff_inv_def)
qed

lemma cleanupEffect_wf: "wf st \<Longrightarrow> wf (cleanupEffect st e)"
  by (simp add: wf_def cleanupEffect_eff_inv)

lemma extends_next_eid: "extends a b \<Longrightarrow> next_eid a \<le> next_eid b"
  by (simp add: extends_def)

lemma effectFn_step:
  assumes wf: "wf st" and e: "e < next_eid st"
    and run: "\<And>s. wf s \<Longrightarrow> step s (fst (run s))"
  shows "wf (fst (effectFn e run st))"
    and "extends (st\<lparr>trace := trace st @ [Execute e]\<rparr>) (fst (effectFn e run st))"
    and "currentEffect (fst (effectFn e run st)) = currentEffect st"
proof -
  let ?st1 = "cleanupEffect st e"
  let ?st2 = "?st1\<lparr>currentEffect := Some e, trace := trace ?st1 @ [Execute e]\<rparr>"
  let ?st3 = "fst (run ?st2)"
  let ?fin = "?st3\<lparr>currentEffect := currentEffect st\<rparr>"
  have fin: "fst (effectFn e run st) = ?fin"
    by (simp add: effectFn_def Let_def split: prod.splits)
  have wf2: "wf ?st2"
    using cleanupEffect_wf [OF wf] e by (intro set_current_wf) simp_all
  have s3: "step ?st2 ?st3" by (rule run [OF wf2])
  have le: "next_eid st \<le> next_eid ?st3"
    using extends_next_eid [of ?st2 ?st3] s3 by (simp add: step_def)
  have cur: "\<And>c. currentEffect st = Some c \<Longrightarrow> c < next_eid ?st3"
    using wf le unfolding wf_def eff_inv_def queue_ok_def by fastforce
  have "wf (?st3\<lparr>currentEffect := currentEffect st, trace := trace ?st3\<rparr>)"
    using s3 cur by (intro set_current_wf) (simp_all add: step_def)
  then show "wf (fst (effectFn e run st))" by (simp add: fin)
  have x1: "extends (st\<lparr>trace := trace st @ [Execute e]\<rparr>) ?st2"
    using cleanupEffect_extends [of st e]
    unfolding extends_def by simp
  have x2: "extends ?st2 ?st3" using s3 by (simp add: step_def)
  have x3: "extends ?st3 ?fin" by (simp add: extends_def)
  show "extends (st\<lparr>trace := trace st @ [Execute e]\<rparr>) (fst (effectFn e run st))"
    unfolding fin using x1 x2 x3 by (blast intro: extends_trans)
  show "currentEffect (fst (effectFn e run st)) = currentEffect st"
    by (simp add: fin)
qed

lemma exec_step: "wf st \<Longrightarrow> step st (fst (exec p st))"
proof (induction p arbitrary: st)
  case Done
  then show ?case by (simp add: step_refl)
next
  case Throw
  then show ?case by (simp add: step_refl)
next
  case (NewObject ob k)
  let ?st1 = "st\<lparr>heap := (heap st)(next_addr st \<mapsto> Obj ob), next_addr := Suc (next_addr st)\<rparr>"
  have s1: "step st ?st1" by (rule heap_alloc_step [OF NewObject.prems])
  have "step ?st1 (fst (exec (k (next_addr st)) ?st1))"
    by (rule NewObject.IH [OF _ step_wf [OF s1]]) simp
  with s1 show ?case by (auto intro: step_trans)
next
  case (Reactive v par k)
  obtain st1 w where r: "reactive st v par = (st1, w)" by (cases "reactive st v par")
  have s1: "step st st1" using reactive_step [OF Reactive.prems, of v par] r by simp
  have "step st1 (fst (exec (k w) st1))"
    by (rule Reactive.IH [OF _ step_wf [OF s1]]) simp
  with s1 r show ?case by (auto intro: step_trans)
next
  case (Get x key k)
  show ?case
  proof (cases "read_prop st x key")
    case None
    with Get.prems show ?thesis by (simp add: step_refl)
  next
    case (Some a)
    obtain st1 v where a: "a = (st1, v)" by (cases a)
    have s1: "step st st1" using read_prop_step [OF Get.prems] Some a by simp
    have "step st1 (fst (exec (k v) st1))"
      by (rule Get.IH [OF _ step_wf [OF s1]]) simp
    with s1 Some a show ?thesis by (auto intro: step_trans)
  qed
next
  case (Put x key v p)
  show ?case
  proof (cases "write_prop st x key v")
    case None
    with Put.prems show ?thesis by (simp add: step_refl)
  next
    case (Some st1)
    have s1: "step st st1" by (rule write_prop_step [OF Put.prems Some])
    have "step st1 (fst (exec p st1))" by (rule Put.IH [OF step_wf [OF s1]])
    with s1 Some show ?thesis by (auto intro: step_trans)
  qed
next
  case (CallMethod x m original k)
  show ?case
  proof (cases "call_method st x m original")
    case None
    with CallMethod.prems show ?thesis by (simp add: step_refl)
  next
    case (Some a)
    obtain st1 v where a: "a = (st1, v)" by (cases a)
    have s1: "step st st1" using call_method_step [OF CallMethod.prems] Some a by simp
    have "step st1 (fst (exec (k v) st1))"
      by (rule CallMethod.IH [OF _ step_wf [OF s1]]) simp
    with s1 Some a show ?thesis by (auto intro: step_trans)
  qed
next
  case (CreateEffect body k)
  let ?e = "next_eid st"
  let ?st0 = "new_effect st body"
  have wf0: "wf ?st0" by (rule new_effect_wf [OF CreateEffect.prems])
  have e: "?e < next_eid ?st0" by (simp add: new_effect_def)
  note f = effectFn_step [of ?st0 ?e "exec body", OF wf0 e CreateEffect.IH(1)]
  obtain st1 out where r: "effectFn ?e (exec body) ?st0 = (st1, out)"
    by (cases "effectFn ?e (exec body) ?st0")
  have wf1: "wf st1" using f(1) r by simp
  have cur1: "currentEffect st1 = currentEffect st" using f(3) r by (simp add: new_effect_def)
  have x0: "extends st (?st0\<lparr>trace := trace ?st0 @ [Execute ?e]\<rparr>)"
    unfolding extends_def new_effect_def
    using CreateEffect.prems
    by (auto simp: wf_def eff_inv_def eff_dom_def)
  have x1: "extends st st1" using extends_trans [OF x0 f(2)] r by simp
  have s1: "step st st1" using wf1 x1 cur1 by (simp add: step_def)
  show ?case
  proof (cases out)
    case Threw
    with r s1 show ?thesis by simp
  next
    case Normal
    have "step st1 (fst (exec (k ?e) st1))"
      by (rule CreateEffect.IH(2) [OF _ wf1]) simp
    with s1 r Normal show ?thesis by (auto intro: step_trans)
  qed
qed

fun executed :: "event list \<Rightarrow> eid list" where
  "executed [] = []"
| "executed (Execute e # es) = e # executed es"
| "executed (ev # es) = executed es"

fun notified :: "event list \<Rightarrow> (addr \<times> key) list" where
  "notified [] = []"
| "notified (Notify t k # es) = (t, k) # notified es"
| "notified (ev # es) = notified es"

fun scheduled :: "event list \<Rightarrow> eid list" where
  "scheduled [] = []"
| "scheduled (Schedule e # es) = e # scheduled es"
| "scheduled (ev # es) = scheduled es"

definition new_events :: "rstate \<Rightarrow> rstate \<Rightarrow> event list" where
  "new_events st st' = drop (length (trace st)) (trace st')"

lemma executed_append [simp]: "executed (a @ b) = executed a @ executed b"
  by (induction a rule: executed.induct) auto

lemma notified_append [simp]: "notified (a @ b) = notified a @ notified b"
  by (induction a rule: notified.induct) auto

lemma scheduled_append [simp]: "scheduled (a @ b) = scheduled a @ scheduled b"
  by (induction a rule: scheduled.induct) auto


lemma in_notified: "((t, k) \<in> set (notified tr)) = (Notify t k \<in> set tr)"
  by (induction tr rule: notified.induct) simp_all





definition wstep :: "rstate \<Rightarrow> rstate \<Rightarrow> bool" where
  "wstep st st' =
     (targetMap st' = targetMap st \<and> currentEffect st' = currentEffect st \<and>
      effects st' = effects st \<and> next_eid st' = next_eid st \<and>
      (\<exists>new. trace st' = trace st @ new \<and> executed new = [] \<and>
         set (updateQueue st') =
           set (updateQueue st) \<union> (\<Union>tk \<in> set (notified new). set (notify_list st tk))))"

lemma wstep_refl [simp]: "wstep st st"
  by (simp add: wstep_def)

lemma wstep_trans:
  assumes "wstep a b" "wstep b c"
  shows "wstep a c"
proof -
  from assms(1) obtain new1 where
    n1: "trace b = trace a @ new1" "executed new1 = []"
      "set (updateQueue b) = set (updateQueue a) \<union> (\<Union>tk \<in> set (notified new1). set (notify_list a tk))"
    unfolding wstep_def by blast
  from assms(2) obtain new2 where
    n2: "trace c = trace b @ new2" "executed new2 = []"
      "set (updateQueue c) = set (updateQueue b) \<union> (\<Union>tk \<in> set (notified new2). set (notify_list b tk))"
    unfolding wstep_def by blast
  have nl: "notify_list b = notify_list a"
    using assms(1) by (intro notify_list_cong) (simp_all add: wstep_def)
  have "trace c = trace a @ (new1 @ new2) \<and> executed (new1 @ new2) = [] \<and>
        set (updateQueue c) =
          set (updateQueue a) \<union> (\<Union>tk \<in> set (notified (new1 @ new2)). set (notify_list a tk))"
    using n1 n2 nl by auto
  then show ?thesis
    using assms unfolding wstep_def by (intro conjI exI [of _ "new1 @ new2"]) simp_all
qed

lemma notified_Schedule [simp]: "notified (map Schedule js) = []"
  by (induction js) auto

lemma executed_Schedule [simp]: "executed (map Schedule js) = []"
  by (induction js) auto

lemma trigger_wstep: "wstep st (trigger st t k)"
  unfolding wstep_def
  by (intro conjI exI [of _ "Notify t k # map Schedule (notify_list st (t, k))"])
     (simp_all add: trigger_queue)

lemma heap_wstep: "wstep st (st\<lparr>heap := h\<rparr>)"
  by (simp add: wstep_def)

lemma proxy_set_wstep: "wstep st (proxy_set st target key v)"
proof -
  let ?st1 = "st\<lparr>heap := (heap st)(target \<mapsto> Obj (raw_set (target_obj st target) key v))\<rparr>"
  have s1: "wstep st ?st1" by (rule heap_wstep)
  let ?st2 = "trigger ?st1 target key"
  have s2: "wstep st ?st2" using s1 trigger_wstep by (blast intro: wstep_trans)
  let ?st3 = "if is_array (target_obj ?st2 target) \<and> key = ''length''
              then trigger ?st2 target ''__array__'' else ?st2"
  have s3: "wstep st ?st3"
    using s2 trigger_wstep [of ?st2 target "''__array__''"] by (auto intro: wstep_trans)
  have s4: "\<And>pt pk. wstep st (trigger ?st3 pt pk)"
    using s3 trigger_wstep by (blast intro: wstep_trans)
  show ?thesis
    unfolding proxy_set_def Let_def
    using s1 s3 s4 by (auto split: option.splits)
qed



lemma new_events_append: "trace st' = trace st @ new \<Longrightarrow> new_events st st' = new"
  by (simp add: new_events_def)




lemma is_array_raw_set [simp]: "is_array (raw_set ob k v) = is_array ob"
  by (simp add: raw_set_def)

lemma target_obj_heap_upd [simp]:
  "target_obj (st\<lparr>heap := (heap st)(a \<mapsto> Obj ob)\<rparr>) a = ob"
  by (simp add: target_obj_def)

lemma proxy_set_notified:
  "notified (new_events st (proxy_set st target key v)) =
     (if \<not> strict_eq (raw_get (target_obj st target) key) v \<or> is_object v then
        (target, key) #
        (if is_array (target_obj st target) \<and> key = ''length'' then [(target, ''__array__'')] else []) @
        (case parentMap st target of None \<Rightarrow> [] | Some pk \<Rightarrow> [pk])
      else [])"
proof (cases "\<not> strict_eq (raw_get (target_obj st target) key) v \<or> is_object v")
  case False
  then show ?thesis by (simp add: proxy_set_def new_events_def Let_def)
next
  case True
  show ?thesis
  proof (cases "parentMap st target")
    case None
    with True show ?thesis
      by (cases "is_array (target_obj st target) \<and> key = ''length''")
         (simp_all add: proxy_set_def new_events_def Let_def)
  next
    case (Some pk)
    obtain pt k where "pk = (pt, k)" by (cases pk)
    with Some True show ?thesis
      by (cases "is_array (target_obj st target) \<and> key = ''length''")
         (simp_all add: proxy_set_def new_events_def Let_def)
  qed
qed

lemma proxy_set_unchanged:
  assumes "\<not> is_object v" "strict_eq (raw_get (target_obj st target) key) v"
  shows "proxy_set st target key v =
           st\<lparr>heap := (heap st)(target \<mapsto> Obj (raw_set (target_obj st target) key v))\<rparr>"
  using assms by (simp add: proxy_set_def Let_def)

lemma proxy_set_queue:
  "set (updateQueue (proxy_set st target key v)) =
     set (updateQueue st) \<union>
     (\<Union>tk \<in> set (notified (new_events st (proxy_set st target key v))). set (notify_list st tk))"
proof -
  from proxy_set_wstep [of st target key v] obtain new where
    n: "trace (proxy_set st target key v) = trace st @ new"
      "set (updateQueue (proxy_set st target key v)) =
         set (updateQueue st) \<union> (\<Union>tk \<in> set (notified new). set (notify_list st tk))"
    unfolding wstep_def by blast
  from n(1) have "new_events st (proxy_set st target key v) = new" by (rule new_events_append)
  with n(2) show ?thesis by simp
qed

lemma in_notify_list:
  "(e \<in> set (notify_list st tk)) = (e \<in> set (subscribers st tk) \<and> Some e \<noteq> currentEffect st)"
  by (auto simp: notify_list_def)






lemma subscribers_current_upd [simp]:
  "subscribers (st\<lparr>currentEffect := c\<rparr>) = subscribers st"
  "subscribers (st\<lparr>trace := tr\<rparr>) = subscribers st"
  "subscribers (st\<lparr>heap := h\<rparr>) = subscribers st"
  by (rule subscribers_cong, simp)+


definition plain_raw :: "rstate \<Rightarrow> val \<Rightarrow> addr \<Rightarrow> bool" where
  "plain_raw st v a =
     (v = Ref a \<and> (\<exists>oa. heap st a = Some (Obj oa) \<and> \<not> truthy (raw_get oa ''__isReactive'')))"

lemma reactive_wrap:
  assumes "proxy_inv st" "heap st r = Some (Obj ob)" "\<not> truthy (raw_get ob ''__isReactive'')"
  shows "\<exists>p. snd (reactive st (Ref r) par) = Ref p \<and> p \<noteq> r \<and>
             heap (fst (reactive st (Ref r) par)) p = Some (Proxy r) \<and>
             reactiveMap (fst (reactive st (Ref r) par)) r = Some p"
proof (cases "reactiveMap st r")
  case None
  have fresh: "heap st (next_addr st) = None" by (rule proxy_inv_fresh [OF assms(1)])
  then have "next_addr st \<noteq> r" using assms(2) by auto
  with None assms(2,3) show ?thesis
    by (simp add: reactive_def Let_def)
next
  case (Some p)
  then have hp: "heap st p = Some (Proxy r)" using assms(1) by (simp add: proxy_inv_def)
  then have "p \<noteq> r" using assms(2) by auto
  with Some hp assms(2,3) show ?thesis
    by (simp add: reactive_def)
qed

lemma proxy_unique:
  assumes "proxy_inv st" "reactiveMap st a = Some q" "heap st q' = Some (Proxy a)"
  shows "q' = q"
proof -
  from assms(1,3) have "reactiveMap st a = Some q'" unfolding proxy_inv_def by blast
  with assms(2) show ?thesis by simp
qed

lemma reactive_not_plain:
  assumes "\<And>a. \<not> plain_raw st v a"
  shows "reactive st v par = (st, v)"
proof (cases rule: reactive_cases [of st v par])
  case same
  then show ?thesis .
next
  case (cached a p)
  with assms [of a] show ?thesis
    by (auto simp: plain_raw_def reactive_def split: option.splits cell.splits if_splits)
next
  case (fresh a ob)
  with assms [of a] show ?thesis by (auto simp: plain_raw_def creates_def)
qed

lemma reactive_proxy_self:
  "heap st p = Some (Proxy t) \<Longrightarrow> reactive st (Ref p) par = (st, Ref p)"
  by (simp add: reactive_def)

lemma proxy_set_heap [simp]:
  "heap (proxy_set st target key v) =
     (heap st)(target \<mapsto> Obj (raw_set (target_obj st target) key v))"
  by (simp add: proxy_set_def Let_def split: option.splits prod.splits)

lemma raw_get_raw_set [simp]: "raw_get (raw_set ob k v) k' = (if k' = k then v else raw_get ob k')"
  by (simp add: raw_get_def raw_set_def)

lemma is_object_truthy: "is_object v \<Longrightarrow> truthy v"
  by (cases v) simp_all

lemma proxy_get_value:
  assumes "k \<noteq> ''__isReactive''" "k \<noteq> ''__raw''"
  shows "\<exists>s. heap s = heap st \<and> reactiveMap s = reactiveMap st \<and> next_addr s = next_addr st \<and>
           proxy_get st t k =
             (if is_object (raw_get (target_obj st t) k)
              then reactive s (raw_get (target_obj st t) k) (Some (t, k))
              else (s, raw_get (target_obj st t) k))"
proof -
  let ?s = "if is_array (target_obj (track st t k) t)
            then track (track st t k) t ''__array__'' else track st t k"
  have "target_obj ?s t = target_obj st t" by (simp add: target_obj_def)
  then have "proxy_get st t k =
             (if is_object (raw_get (target_obj st t) k)
              then reactive ?s (raw_get (target_obj st t) k) (Some (t, k))
              else (?s, raw_get (target_obj st t) k))"
    using assms by (auto simp: proxy_get_def Let_def is_object_truthy)
  moreover have "heap ?s = heap st \<and> reactiveMap ?s = reactiveMap st \<and> next_addr ?s = next_addr st"
    by simp
  ultimately show ?thesis by blast
qed

lemma roundtrip:
  assumes wf: "wf st" and p: "heap st p = Some (Proxy r)"
    and k: "k \<noteq> ''__isReactive''" "k \<noteq> ''__raw''"
    and w: "write_prop st p k v = Some st3" and rd: "read_prop st3 p k = Some (st4, v')"
  shows "if \<exists>a. plain_raw st3 v a
         then \<exists>a q. v = Ref a \<and> v' = Ref q \<and> q \<noteq> a \<and> heap st4 q = Some (Proxy a) \<and>
                (\<forall>q'. heap st4 q' = Some (Proxy a) \<longrightarrow> q' = q)
         else v' = v"
proof -
  obtain ob where r: "heap st r = Some (Obj ob)"
    using wf p unfolding wf_def proxy_inv_def by blast
  have st3: "st3 = proxy_set st r k v" using w p by (simp add: write_prop_def)
  have wf3: "wf st3" using write_prop_step [OF wf w] by (simp add: step_def)
  have p3: "heap st3 p = Some (Proxy r)"
    using p r by (auto simp: st3)
  have val: "raw_get (target_obj st3 r) k = v"
    by (simp add: st3 target_obj_def)
  from proxy_get_value [OF k, of st3 r] val obtain s where
    s: "heap s = heap st3" "reactiveMap s = reactiveMap st3" "next_addr s = next_addr st3"
      "proxy_get st3 r k = (if is_object v then reactive s v (Some (r, k)) else (s, v))"
    by auto
  have pis: "proxy_inv s"
    using wf3 proxy_inv_cong [of s st3] s by (simp add: wf_def)
  have g: "(st4, v') = (if is_object v then reactive s v (Some (r, k)) else (s, v))"
    using rd p3 s(4) by (simp add: read_prop_def)
  show ?thesis
  proof (cases "\<exists>a. plain_raw st3 v a")
    case True
    then obtain a oa where a: "v = Ref a" "heap s a = Some (Obj oa)"
      "\<not> truthy (raw_get oa ''__isReactive'')"
      using s(1) by (auto simp: plain_raw_def)
    from reactive_wrap [OF pis a(2,3), of "Some (r, k)"] obtain q where
      q: "snd (reactive s (Ref a) (Some (r, k))) = Ref q" "q \<noteq> a"
        "heap (fst (reactive s (Ref a) (Some (r, k)))) q = Some (Proxy a)"
        "reactiveMap (fst (reactive s (Ref a) (Some (r, k)))) a = Some q"
      by blast
    have e: "reactive s (Ref a) (Some (r, k)) = (st4, v')" using g a(1) by simp
    have pi4: "proxy_inv st4"
      using reactive_proxy_inv [OF pis, of "Ref a" "Some (r, k)"] e by simp
    have rm4: "reactiveMap st4 a = Some q" using q(4) e by simp
    have uniq: "\<forall>q'. heap st4 q' = Some (Proxy a) \<longrightarrow> q' = q"
      using proxy_unique [OF pi4 rm4] by blast
    have v': "v' = Ref q" using q(1) e by simp
    have h4: "heap st4 q = Some (Proxy a)" using q(3) e by simp
    have "\<exists>a q. v = Ref a \<and> v' = Ref q \<and> q \<noteq> a \<and> heap st4 q = Some (Proxy a) \<and>
                (\<forall>q'. heap st4 q' = Some (Proxy a) \<longrightarrow> q' = q)"
      using a(1) v' q(2) h4 uniq by blast
    with True show ?thesis by (simp only: if_True)
  next
    case False
    then have np: "\<And>a. \<not> plain_raw s v a" using s(1) by (simp add: plain_raw_def)
    from reactive_not_plain [OF np] g False show ?thesis by (auto split: if_splits)
  qed
qed

lemma wf_init: "wf init_state"
  by (simp add: wf_def sched_inv_def eff_inv_def eff_dom_def queue_ok_def dep_ok_def
      subscribers_def proxy_inv_def init_state_def)

lemma wf_exec_init: "wf (fst (exec p init_state))"
  using exec_step [OF wf_init, of p] by (simp add: step_def)



lemmas run_defs =
  init_state_def reactive_def raw_get_def raw_set_def set_parent_def read_prop_def
  write_prop_def call_method_def array_interceptor_def this_raw_def proxy_get_def proxy_set_def
  track_def trigger_def queueJob_def effectFn_def new_effect_def cleanupEffect_def
  target_obj_def set_add_def set_delete_def run_microtask_def flush_def new_events_def
  install_interceptors_def arrayMethods_def empty_obj_def Let_def



definition config_setup :: prog where
  "config_setup =
     NewObject empty_obj (\<lambda>c.
     NewObject \<lparr> is_array = False,
                 props = [''cfg'' \<mapsto> Ref c, ''n'' \<mapsto> Prim (Num 7)] \<rparr> (\<lambda>r.
     Reactive (Ref r) None (\<lambda>w. case w of
       Ref p \<Rightarrow>
         CreateEffect (Get p ''cfg'' (\<lambda>v. Get p ''n'' (\<lambda>u. Done))) (\<lambda>e. Done)
     | _ \<Rightarrow> Throw)))"





definition wrap_setup :: prog where
  "wrap_setup = NewObject empty_obj (\<lambda>r. NewObject empty_obj (\<lambda>c. Done))"

definition wrapped_state :: rstate where
  "wrapped_state = fst (reactive (fst (exec wrap_setup init_state)) (Ref 0) None)"

section \<open>Reactive core: properties\<close>






text \<open>
  C7 (skip-if-unchanged). A write \<open>p[key] = v\<close> through a proxy \<open>p\<close> of \<open>target\<close>:
  when \<open>v\<close> is not an object and is strictly equal to the stored value, nothing is
  notified and nothing is scheduled; when \<open>v\<close> is a non-null object (the stored reference
  itself included), (target, key) is notified, and \<^verbatim>\<open>trigger\<close> leaves every subscriber
  of (target, key) other than the running computation in the pending set.
\<close>

theorem write_skip_semantics:
  assumes "heap st p = Some (Proxy target)" and "write_prop st p key v = Some st'"
  shows "(\<not> is_object v \<and> strict_eq (raw_get (target_obj st target) key) v \<longrightarrow>
            notified (new_events st st') = [] \<and> scheduled (new_events st st') = [] \<and>
            updateQueue st' = updateQueue st \<and> isFlushPending st' = isFlushPending st \<and>
            microtasks st' = microtasks st) \<and>
         (is_object v \<longrightarrow>
            (target, key) \<in> set (notified (new_events st st')) \<and>
            (\<forall>e \<in> set (subscribers st (target, key)).
               Some e \<noteq> currentEffect st \<longrightarrow> e \<in> set (updateQueue st')))"
proof -
  have st': "st' = proxy_set st target key v"
    using assms by (simp add: write_prop_def)
  show ?thesis
  proof (intro conjI impI)
    assume a: "\<not> is_object v \<and> strict_eq (raw_get (target_obj st target) key) v"
    then have e: "st' = st\<lparr>heap := (heap st)(target \<mapsto> Obj (raw_set (target_obj st target) key v))\<rparr>"
      using proxy_set_unchanged st' by simp
    show "notified (new_events st st') = []" "scheduled (new_events st st') = []"
      "updateQueue st' = updateQueue st" "isFlushPending st' = isFlushPending st"
      "microtasks st' = microtasks st"
      by (simp_all add: e new_events_def)
  next
    assume o: "is_object v"
    then show n: "(target, key) \<in> set (notified (new_events st st'))"
      by (simp add: st' proxy_set_notified)
    show "\<forall>e \<in> set (subscribers st (target, key)).
               Some e \<noteq> currentEffect st \<longrightarrow> e \<in> set (updateQueue st')"
      using n unfolding st' proxy_set_queue [of st target key v]
      by (auto simp: in_notify_list)
  qed
qed

theorem write_skip_semantics_witness:
  "(\<exists>st'. write_prop (fst (exec config_setup init_state)) 2 ''n'' (Prim (Num 7)) = Some st' \<and>
      scheduled (new_events (fst (exec config_setup init_state)) st') = [] \<and>
      updateQueue st' = []) \<and>
   (\<exists>st'. write_prop (fst (exec config_setup init_state)) 2 ''cfg'' (Ref 0) = Some st' \<and>
      raw_get (target_obj (fst (exec config_setup init_state)) 1) ''cfg'' = Ref 0 \<and>
      0 \<in> set (updateQueue st'))"
proof -
  let ?st = "fst (exec config_setup init_state)"
  have p: "heap ?st 2 = Some (Proxy 1)"
    by (simp add: config_setup_def run_defs)
  have old: "raw_get (target_obj ?st 1) ''n'' = Prim (Num 7)"
    "raw_get (target_obj ?st 1) ''cfg'' = Ref 0"
    by (simp_all add: config_setup_def run_defs)
  have sub: "0 \<in> set (subscribers ?st (1, ''cfg''))" "currentEffect ?st = None"
    "updateQueue ?st = []"
    by (simp_all add: config_setup_def run_defs subscribers_def)
  obtain s1 where w1: "write_prop ?st 2 ''n'' (Prim (Num 7)) = Some s1"
    using p by (simp add: write_prop_def)
  obtain s2 where w2: "write_prop ?st 2 ''cfg'' (Ref 0) = Some s2"
    using p by (simp add: write_prop_def)
  from write_skip_semantics [OF p w1] old sub
  have a: "scheduled (new_events ?st s1) = []" "updateQueue s1 = []" by simp_all
  from write_skip_semantics [OF p w2] sub
  have b: "0 \<in> set (updateQueue s2)" by auto
  from w1 w2 a b old show ?thesis by blast
qed





text \<open>
  C4 (round trip and single proxy), as amended. For a raw object \<open>r\<close> whose own
  \<^verbatim>\<open>__isReactive\<close> property is not truthy, \<^verbatim>\<open>reactive(r)\<close> is a proxy \<open>p\<close> of \<open>r\<close>;
  \<^verbatim>\<open>reactive\<close> of the proxy is the proxy; after any program, \<open>p\<close> is the only proxy
  of \<open>r\<close>, and \<^verbatim>\<open>reactive(r)\<close> is \<open>p\<close> again as long as \<^verbatim>\<open>r.__isReactive\<close> is not
  truthy. Writing \<open>v\<close> to a key other than \<^verbatim>\<open>__isReactive\<close> and \<^verbatim>\<open>__raw\<close> through
  \<open>p\<close> and reading the key through \<open>p\<close> yields \<open>v\<close> itself, unless \<open>v\<close> is a raw
  object without a truthy \<^verbatim>\<open>__isReactive\<close>: then it yields the one proxy of \<open>v\<close>.
\<close>

theorem reactive_roundtrip:
  assumes wf: "wf st" and r: "heap st r = Some (Obj ob)"
    and nr: "\<not> truthy (raw_get ob ''__isReactive'')"
    and wr: "reactive st (Ref r) par = (st1, w)"
    and ex: "exec prog st1 = (st2, out)"
  shows "\<exists>p. w = Ref p \<and> p \<noteq> r \<and> heap st1 p = Some (Proxy r) \<and>
           reactive st1 w par' = (st1, w) \<and>
           (\<forall>q. heap st2 q = Some (Proxy r) \<longrightarrow> q = p) \<and>
           (\<not> truthy (raw_get (target_obj st2 r) ''__isReactive'') \<longrightarrow>
              snd (reactive st2 (Ref r) par') = w) \<and>
           (\<forall>k v st3 st4 v'.
              k \<noteq> ''__isReactive'' \<and> k \<noteq> ''__raw'' \<and>
              write_prop st2 p k v = Some st3 \<and> read_prop st3 p k = Some (st4, v') \<longrightarrow>
              (if \<exists>a. plain_raw st3 v a
               then \<exists>a q. v = Ref a \<and> v' = Ref q \<and> q \<noteq> a \<and> heap st4 q = Some (Proxy a) \<and>
                      (\<forall>q'. heap st4 q' = Some (Proxy a) \<longrightarrow> q' = q)
               else v' = v))"
proof -
  have pi: "proxy_inv st" using wf by (simp add: wf_def)
  from reactive_wrap [OF pi r nr, of par] wr obtain p where
    p: "w = Ref p" "p \<noteq> r" "heap st1 p = Some (Proxy r)" "reactiveMap st1 r = Some p"
    by auto
  have wf1: "wf st1" using reactive_step [OF wf, of "Ref r" par] wr by (simp add: step_def)
  have s2: "step st1 st2" using exec_step [OF wf1, of prog] ex by simp
  then have wf2: "wf st2" and x: "extends st1 st2" by (simp_all add: step_def)
  have p2: "heap st2 p = Some (Proxy r)" "reactiveMap st2 r = Some p"
    using x p(3,4) unfolding extends_def by blast+
  have pi2: "proxy_inv st2" using wf2 by (simp add: wf_def)
  have uniq: "\<forall>q. heap st2 q = Some (Proxy r) \<longrightarrow> q = p"
    using proxy_unique [OF pi2 p2(2)] by blast
  obtain ob2 where r2: "heap st2 r = Some (Obj ob2)"
    using pi2 p2(1) unfolding proxy_inv_def by blast
  have again: "\<not> truthy (raw_get (target_obj st2 r) ''__isReactive'') \<longrightarrow>
              snd (reactive st2 (Ref r) par') = w"
    using r2 p2(2) p(1) by (simp add: target_obj_def reactive_def)
  have idem: "reactive st1 w par' = (st1, w)"
    unfolding p(1) by (rule reactive_proxy_self [OF p(3)])
  have rt: "\<forall>k v st3 st4 v'.
              k \<noteq> ''__isReactive'' \<and> k \<noteq> ''__raw'' \<and>
              write_prop st2 p k v = Some st3 \<and> read_prop st3 p k = Some (st4, v') \<longrightarrow>
              (if \<exists>a. plain_raw st3 v a
               then \<exists>a q. v = Ref a \<and> v' = Ref q \<and> q \<noteq> a \<and> heap st4 q = Some (Proxy a) \<and>
                      (\<forall>q'. heap st4 q' = Some (Proxy a) \<longrightarrow> q' = q)
               else v' = v)"
    using roundtrip [OF wf2 p2(1)] by blast
  show ?thesis
    using p(1,2,3) idem uniq again rt by blast
qed

theorem reactive_roundtrip_witness:
  "\<exists>p. snd (reactive (fst (exec wrap_setup init_state)) (Ref 0) None) = Ref p \<and> p = 2 \<and>
     reactive (fst (reactive (fst (exec wrap_setup init_state)) (Ref 0) None)) (Ref p) None =
       (fst (reactive (fst (exec wrap_setup init_state)) (Ref 0) None), Ref p) \<and>
     snd (reactive (fst (reactive (fst (exec wrap_setup init_state)) (Ref 0) None)) (Ref 0) None) = Ref p \<and>
     (\<exists>st3 st4 v'.
        write_prop (fst (reactive (fst (exec wrap_setup init_state)) (Ref 0) None)) p ''n''
          (Prim (Num 5)) = Some st3 \<and>
        read_prop st3 p ''n'' = Some (st4, v') \<and> v' = Prim (Num 5)) \<and>
     (\<exists>st3 st4 v'.
        write_prop (fst (reactive (fst (exec wrap_setup init_state)) (Ref 0) None)) p ''c''
          (Ref 1) = Some st3 \<and>
        read_prop st3 p ''c'' = Some (st4, v') \<and> heap st4 3 = Some (Proxy 1) \<and> v' = Ref 3)"
proof -
  let ?st = "fst (exec wrap_setup init_state)"
  let ?st1 = "fst (reactive ?st (Ref 0) None)"
  let ?w = "snd (reactive ?st (Ref 0) None)"
  have h: "heap ?st 0 = Some (Obj empty_obj)" "\<not> truthy (raw_get empty_obj ''__isReactive'')"
    by (simp_all add: wrap_setup_def run_defs)
  have wr: "reactive ?st (Ref 0) None = (?st1, ?w)" by simp
  have ex: "exec Done ?st1 = (?st1, Normal)" by simp
  have w: "?w = Ref 2" by (simp add: wrap_setup_def run_defs)
  have p1: "heap ?st1 2 = Some (Proxy 0)" by (simp add: wrap_setup_def run_defs)
  have nf: "\<not> truthy (raw_get (target_obj ?st1 0) ''__isReactive'')"
    by (simp add: wrap_setup_def run_defs)
  obtain s3 where w3: "write_prop ?st1 2 ''n'' (Prim (Num 5)) = Some s3"
    using p1 by (simp add: write_prop_def)
  have p3: "heap s3 2 = Some (Proxy 0)" using w3 p1 by (auto simp: write_prop_def)
  obtain s4 v4 where r4: "read_prop s3 2 ''n'' = Some (s4, v4)"
    using p3 by (simp add: read_prop_def) (metis prod.collapse)
  have np: "\<not> (\<exists>a. plain_raw s3 (Prim (Num 5)) a)" by (simp add: plain_raw_def)
  obtain t3 where w5: "write_prop ?st1 2 ''c'' (Ref 1) = Some t3"
    using p1 by (simp add: write_prop_def)
  have q3: "heap t3 2 = Some (Proxy 0)" using w5 p1 by (auto simp: write_prop_def)
  obtain t4 u4 where r5: "read_prop t3 2 ''c'' = Some (t4, u4)"
    using q3 by (simp add: read_prop_def) (metis prod.collapse)
  have t3: "t3 = proxy_set ?st1 0 ''c'' (Ref 1)" using w5 p1 by (simp add: write_prop_def)
  have pl: "plain_raw t3 (Ref 1) 1"
    unfolding t3 by (simp add: plain_raw_def wrap_setup_def run_defs)
  have u4: "u4 = Ref 3"
    using r5 q3 unfolding t3
    by (auto simp: read_prop_def wrap_setup_def run_defs eval_nat_numeral)
  from reactive_roundtrip [OF wf_exec_init h wr ex, of None] obtain p where
    big: "?w = Ref p \<and> p \<noteq> 0 \<and> heap ?st1 p = Some (Proxy 0) \<and>
           reactive ?st1 ?w None = (?st1, ?w) \<and>
           (\<forall>q. heap ?st1 q = Some (Proxy 0) \<longrightarrow> q = p) \<and>
           (\<not> truthy (raw_get (target_obj ?st1 0) ''__isReactive'') \<longrightarrow>
              snd (reactive ?st1 (Ref 0) None) = ?w) \<and>
           (\<forall>k v st3 st4 v'.
              k \<noteq> ''__isReactive'' \<and> k \<noteq> ''__raw'' \<and>
              write_prop ?st1 p k v = Some st3 \<and> read_prop st3 p k = Some (st4, v') \<longrightarrow>
              (if \<exists>a. plain_raw st3 v a
               then \<exists>a q. v = Ref a \<and> v' = Ref q \<and> q \<noteq> a \<and> heap st4 q = Some (Proxy a) \<and>
                      (\<forall>q'. heap st4 q' = Some (Proxy a) \<longrightarrow> q' = q)
               else v' = v))" ..
  have p: "p = 2" using big [THEN conjunct1] w by simp
  have idem: "reactive ?st1 (Ref 2) None = (?st1, Ref 2)"
    using big [THEN conjunct2, THEN conjunct2, THEN conjunct2, THEN conjunct1] w by simp
  have again: "snd (reactive ?st1 (Ref 0) None) = Ref 2"
    using big [THEN conjunct2, THEN conjunct2, THEN conjunct2, THEN conjunct2, THEN conjunct2,
        THEN conjunct1] nf w by simp
  note all = big [THEN conjunct2, THEN conjunct2, THEN conjunct2, THEN conjunct2, THEN conjunct2,
        THEN conjunct2, unfolded p]
  have rt: "\<And>k v st3 st4 v'. k \<noteq> ''__isReactive'' \<Longrightarrow> k \<noteq> ''__raw'' \<Longrightarrow>
              write_prop ?st1 2 k v = Some st3 \<Longrightarrow> read_prop st3 2 k = Some (st4, v') \<Longrightarrow>
              (if \<exists>a. plain_raw st3 v a
               then \<exists>a q. v = Ref a \<and> v' = Ref q \<and> q \<noteq> a \<and> heap st4 q = Some (Proxy a) \<and>
                      (\<forall>q'. heap st4 q' = Some (Proxy a) \<longrightarrow> q' = q)
               else v' = v)"
    using all by blast
  have a: "v4 = Prim (Num 5)"
    using rt [OF _ _ w3 r4] np by simp
  have "\<exists>a q. Ref 1 = Ref a \<and> u4 = Ref q \<and> q \<noteq> a \<and> heap t4 q = Some (Proxy a) \<and>
                      (\<forall>q'. heap t4 q' = Some (Proxy a) \<longrightarrow> q' = q)"
    using rt [OF _ _ w5 r5] pl by (simp split: if_splits)
  then have b: "heap t4 3 = Some (Proxy 1)" using u4 by auto
  have c1: "\<exists>st3 st4 v'. write_prop ?st1 2 ''n'' (Prim (Num 5)) = Some st3 \<and>
        read_prop st3 2 ''n'' = Some (st4, v') \<and> v' = Prim (Num 5)"
    using w3 r4 a by blast
  have c2: "\<exists>st3 st4 v'. write_prop ?st1 2 ''c'' (Ref 1) = Some st3 \<and>
        read_prop st3 2 ''c'' = Some (st4, v') \<and> heap st4 3 = Some (Proxy 1) \<and> v' = Ref 3"
    using w5 r5 b u4 by blast
  show ?thesis
    by (rule exI [of _ 2]) (intro conjI; (rule w idem again c1 c2 refl))
qed

text \<open>
  The claim as stated fails at three inputs. With \<open>r\<close> at address 0 wrapped by the proxy
  at address 2: writing 5 to \<^verbatim>\<open>__raw\<close> through the proxy and reading \<^verbatim>\<open>__raw\<close> back
  yields the raw object \<open>r\<close>; writing the raw object at address 1 and reading it back
  yields its proxy, a different reference; and once \<^verbatim>\<open>__isReactive\<close> has been set to
  \<open>true\<close> through the proxy, \<^verbatim>\<open>reactive(r)\<close> returns \<open>r\<close> itself, not the proxy.
\<close>

theorem reactive_roundtrip_counterexample:
  "snd (reactive (fst (exec wrap_setup init_state)) (Ref 0) None) = Ref 2 \<and>
   Option.bind (write_prop wrapped_state 2 ''__raw'' (Prim (Num 5)))
     (\<lambda>s. map_option snd (read_prop s 2 ''__raw'')) = Some (Ref 0) \<and>
   Option.bind (write_prop wrapped_state 2 ''c'' (Ref 1))
     (\<lambda>s. map_option snd (read_prop s 2 ''c'')) = Some (Ref 3) \<and>
   Option.bind (write_prop wrapped_state 2 ''__isReactive'' (Prim (Bool True)))
     (\<lambda>s. Some (snd (reactive s (Ref 0) None))) = Some (Ref 0)"
  by (simp add: wrapped_state_def wrap_setup_def run_defs)

section \<open>Template parts: values, comparison and list reconciliation\<close>

text \<open>
  The values interpolated into a template are modelled by \<open>tval\<close>: a primitive, a
  function (its identity and source text), an array (identity and elements), a
  \<^verbatim>\<open>TemplateResult\<close> (its own identity, the identity of its \<^verbatim>\<open>strings\<close> array, the
  literal segments and the interpolated values), a plain record with the two fields
  \<^verbatim>\<open>strings\<close> and \<^verbatim>\<open>values\<close> as \<^verbatim>\<open>getTemplateSnapshot\<close> builds it (\<open>TSnap\<close>), and an
  \<^verbatim>\<open>UnsafeHTML\<close> wrapper. Numbers are integers or \<open>NaN\<close>. \<open>tstrict_eq\<close> is \<^verbatim>\<open>===\<close>:
  primitives by value with \<open>NaN\<close> different from itself, objects by identity.

  \<^verbatim>\<open>_arraysEqual\<close> and \<^verbatim>\<open>_deepEqual\<close> call each other; \<open>arraysEqual\<close> takes the
  elements of the two arrays, \<open>elemEqual\<close> is the body of its loop for one pair of
  elements, \<open>deepEqual\<close> is \<^verbatim>\<open>_deepEqual\<close> and \<open>propEqual\<close> the body of its loop over
  the own keys: an array has its indices as keys, a template result and a snapshot the
  keys \<^verbatim>\<open>strings\<close> and \<^verbatim>\<open>values\<close>, an \<^verbatim>\<open>UnsafeHTML\<close> the key \<^verbatim>\<open>html\<close>, so two
  objects of different kinds never have the same keys. Two \<^verbatim>\<open>strings\<close> arrays reached
  through the key loop are compared by \<^verbatim>\<open>_arraysEqual\<close>, that is segment by segment.

  \<open>to_string\<close> is \<^verbatim>\<open>String(v)\<close>; \<open>escapeHtml\<close> replaces each character matched by
  the class \<^verbatim>\<open>[&<>"']\<close>; \<open>trim\<close> removes white space at both ends; \<open>match_open_tag\<close>
  is the regular expression \<^verbatim>\<open>^<([a-zA-Z0-9-]+)>$\<close> and \<open>has_tag\<close> the test
  \<^verbatim>\<open><[^>]+>\<close> of \<^verbatim>\<open>_isHTMLString\<close>, whose cache only stores earlier answers.
\<close>

datatype tval =
    TPrim prim
  | TFunc nat string
  | TArr nat "tval list"
  | TRes nat nat "string list" "tval list"
  | TSnap nat nat "string list" "tval list"
  | TUnsafe nat string

fun tstrict_eq :: "tval \<Rightarrow> tval \<Rightarrow> bool" where
  "tstrict_eq (TPrim a) (TPrim b) = prim_strict_eq a b"
| "tstrict_eq (TFunc i s) (TFunc j t) = (i = j)"
| "tstrict_eq (TArr i xs) (TArr j ys) = (i = j)"
| "tstrict_eq (TRes i s segs vs) (TRes j t segs' ws) = (i = j)"
| "tstrict_eq (TSnap i s segs vs) (TSnap j t segs' ws) = (i = j)"
| "tstrict_eq (TUnsafe i h) (TUnsafe j g) = (i = j)"
| "tstrict_eq a b = False"

fun ttruthy :: "tval \<Rightarrow> bool" where
  "ttruthy (TPrim p) = prim_truthy p"
| "ttruthy v = True"

fun typeof_object :: "tval \<Rightarrow> bool" where
  "typeof_object (TPrim Null) = True"
| "typeof_object (TPrim p) = False"
| "typeof_object (TFunc i s) = False"
| "typeof_object v = True"

fun isArray :: "tval \<Rightarrow> bool" where
  "isArray (TArr i xs) = True"
| "isArray v = False"

fun isTemplateResult :: "tval \<Rightarrow> bool" where
  "isTemplateResult (TRes i s segs vs) = True"
| "isTemplateResult v = False"

fun isUnsafeHTML :: "tval \<Rightarrow> bool" where
  "isUnsafeHTML (TUnsafe i h) = True"
| "isUnsafeHTML v = False"

fun is_nullish :: "tval \<Rightarrow> bool" where
  "is_nullish (TPrim Undefined) = True"
| "is_nullish (TPrim Null) = True"
| "is_nullish v = False"

fun has_strings :: "tval \<Rightarrow> bool" where
  "has_strings (TRes i s segs vs) = True"
| "has_strings (TSnap i s segs vs) = True"
| "has_strings v = False"

fun strings_id :: "tval \<Rightarrow> nat" where
  "strings_id (TRes i s segs vs) = s"
| "strings_id (TSnap i s segs vs) = s"
| "strings_id v = 0"

fun strings_of :: "tval \<Rightarrow> string list" where
  "strings_of (TRes i s segs vs) = segs"
| "strings_of (TSnap i s segs vs) = segs"
| "strings_of v = []"

fun values_of :: "tval \<Rightarrow> tval list" where
  "values_of (TRes i s segs vs) = vs"
| "values_of (TSnap i s segs vs) = vs"
| "values_of v = []"

fun arraysEqual :: "tval list \<Rightarrow> tval list \<Rightarrow> bool"
  and elemEqual :: "tval \<Rightarrow> tval \<Rightarrow> bool"
  and deepEqual :: "tval \<Rightarrow> tval \<Rightarrow> bool"
  and propsEqual :: "tval list \<Rightarrow> tval list \<Rightarrow> bool"
  and propEqual :: "tval \<Rightarrow> tval \<Rightarrow> bool"
where
  "arraysEqual [] [] = True"
| "arraysEqual (x # xs) (y # ys) = (elemEqual x y \<and> arraysEqual xs ys)"
| "arraysEqual [] (y # ys) = False"
| "arraysEqual (x # xs) [] = False"
| "elemEqual (TRes i s segs vs) b =
     (case b of
        TRes j t segs' ws \<Rightarrow> s = t \<and> arraysEqual vs ws
      | TPrim p \<Rightarrow> False
      | TFunc j t \<Rightarrow> False
      | other \<Rightarrow> deepEqual (TRes i s segs vs) b)"
| "elemEqual (TArr i xs) b =
     (case b of
        TArr j ys \<Rightarrow> i = j \<or> arraysEqual xs ys
      | TPrim p \<Rightarrow> False
      | TFunc j t \<Rightarrow> False
      | other \<Rightarrow> deepEqual (TArr i xs) b)"
| "elemEqual (TSnap i s segs vs) b =
     (tstrict_eq (TSnap i s segs vs) b \<or>
      (typeof_object b \<and> b \<noteq> TPrim Null \<and> deepEqual (TSnap i s segs vs) b))"
| "elemEqual (TUnsafe i h) b =
     (tstrict_eq (TUnsafe i h) b \<or>
      (typeof_object b \<and> b \<noteq> TPrim Null \<and> deepEqual (TUnsafe i h) b))"
| "elemEqual (TPrim p) b = tstrict_eq (TPrim p) b"
| "elemEqual (TFunc i s) b = tstrict_eq (TFunc i s) b"
| "deepEqual (TRes i s segs vs) b =
     (case b of
        TRes j t segs' ws \<Rightarrow> i = j \<or> (s = t \<and> arraysEqual vs ws)
      | TSnap j t segs' ws \<Rightarrow> segs = segs' \<and> arraysEqual vs ws
      | other \<Rightarrow> False)"
| "deepEqual (TSnap i s segs vs) b =
     (case b of
        TSnap j t segs' ws \<Rightarrow> i = j \<or> (segs = segs' \<and> arraysEqual vs ws)
      | TRes j t segs' ws \<Rightarrow> segs = segs' \<and> arraysEqual vs ws
      | other \<Rightarrow> False)"
| "deepEqual (TArr i xs) b =
     (case b of
        TArr j ys \<Rightarrow> i = j \<or> propsEqual xs ys
      | other \<Rightarrow> False)"
| "deepEqual (TUnsafe i h) b =
     (case b of
        TUnsafe j g \<Rightarrow> i = j \<or> h = g
      | other \<Rightarrow> False)"
| "deepEqual (TPrim p) b = tstrict_eq (TPrim p) b"
| "deepEqual (TFunc i s) b = tstrict_eq (TFunc i s) b"
| "propsEqual [] [] = True"
| "propsEqual (x # xs) (y # ys) = (propEqual x y \<and> propsEqual xs ys)"
| "propsEqual [] (y # ys) = False"
| "propsEqual (x # xs) [] = False"
| "propEqual (TArr i xs) b =
     (case b of
        TArr j ys \<Rightarrow> arraysEqual xs ys
      | TPrim p \<Rightarrow> False
      | TFunc j t \<Rightarrow> False
      | other \<Rightarrow> deepEqual (TArr i xs) b)"
| "propEqual (TPrim p) b =
     (if p = Null \<and> typeof_object b then b = TPrim Null else tstrict_eq (TPrim p) b)"
| "propEqual (TFunc i s) b = tstrict_eq (TFunc i s) b"
| "propEqual (TRes i s segs vs) b =
     (if typeof_object b then deepEqual (TRes i s segs vs) b else False)"
| "propEqual (TSnap i s segs vs) b =
     (if typeof_object b then deepEqual (TSnap i s segs vs) b else False)"
| "propEqual (TUnsafe i h) b =
     (if typeof_object b then deepEqual (TUnsafe i h) b else False)"

definition itemsEqual :: "tval \<Rightarrow> tval \<Rightarrow> bool" where
  "itemsEqual item1 item2 =
     (if tstrict_eq item1 item2 then True
      else if isTemplateResult item1 \<and> isTemplateResult item2 then
        strings_id item1 = strings_id item2 \<and> arraysEqual (values_of item1) (values_of item2)
      else if typeof_object item1 \<and> typeof_object item2 then
        (if ttruthy item1 \<and> ttruthy item2 \<and> has_strings item1 \<and> has_strings item2 then
           strings_id item1 = strings_id item2 \<and>
           arraysEqual (values_of item1) (values_of item2)
         else deepEqual item1 item2)
      else tstrict_eq item1 item2)"

definition getTemplateSnapshot :: "tval \<Rightarrow> tval" where
  "getTemplateSnapshot result =
     (case result of TRes i s segs vs \<Rightarrow> TSnap i s segs vs | other \<Rightarrow> other)"

definition cloneArrayItem :: "tval \<Rightarrow> tval" where
  "cloneArrayItem item = (if isTemplateResult item then getTemplateSnapshot item else item)"

definition show_int :: "int \<Rightarrow> string" where
  "show_int n = (if n < 0 then CHR ''-'' # show_nat (nat (- n)) else show_nat (nat n))"

fun prim_to_string :: "prim \<Rightarrow> string" where
  "prim_to_string Undefined = ''undefined''"
| "prim_to_string Null = ''null''"
| "prim_to_string (Bool b) = (if b then ''true'' else ''false'')"
| "prim_to_string (Num n) = show_int n"
| "prim_to_string NaN = ''NaN''"
| "prim_to_string (Str s) = s"

fun join :: "string \<Rightarrow> string list \<Rightarrow> string" where
  "join sep [] = []"
| "join sep [x] = x"
| "join sep (x # y # ys) = x @ sep @ join sep (y # ys)"

fun to_string :: "tval \<Rightarrow> string" where
  "to_string (TPrim p) = prim_to_string p"
| "to_string (TFunc i src) = src"
| "to_string (TArr i xs) = join '','' (map (\<lambda>x. if is_nullish x then [] else to_string x) xs)"
| "to_string (TRes i s segs vs) = ''[object Object]''"
| "to_string (TSnap i s segs vs) = ''[object Object]''"
| "to_string (TUnsafe i h) = ''[object Object]''"

fun escape_char :: "char \<Rightarrow> string" where
  "escape_char c =
     (if c = CHR ''&'' then ''&amp;''
      else if c = CHR ''<'' then ''&lt;''
      else if c = CHR ''>'' then ''&gt;''
      else if c = CHR 0x22 then ''&quot;''
      else if c = CHR 0x27 then ''&#39;''
      else [c])"

definition escapeHtml :: "tval \<Rightarrow> string" where
  "escapeHtml str = concat (map escape_char (to_string str))"

definition is_space :: "char \<Rightarrow> bool" where
  "is_space c = (c \<in> set [CHR 0x20, CHR 0x09, CHR 0x0A, CHR 0x0B, CHR 0x0C, CHR 0x0D, CHR 0xA0])"

definition trim :: "string \<Rightarrow> string" where
  "trim s = rev (dropWhile is_space (rev (dropWhile is_space s)))"

definition is_tag_char :: "char \<Rightarrow> bool" where
  "is_tag_char c =
     (c \<in> set ''abcdefghijklmnopqrstuvwxyzABCDEFGHIJKLMNOPQRSTUVWXYZ0123456789-'')"

definition match_open_tag :: "string \<Rightarrow> string option" where
  "match_open_tag s =
     (case s of
        [] \<Rightarrow> None
      | c # rest \<Rightarrow>
          if c = CHR ''<'' \<and> rest \<noteq> [] \<and> last rest = CHR ''>'' \<and> butlast rest \<noteq> [] \<and>
             list_all is_tag_char (butlast rest)
          then Some (butlast rest) else None)"

definition isSimpleWrapperTemplate :: "tval \<Rightarrow> (string \<times> string) option" where
  "isSimpleWrapperTemplate result =
     (if \<not> (ttruthy result \<and> has_strings result \<and> length (strings_of result) = 2) then None
      else
        let opening = trim (strings_of result ! 0);
            closing = trim (strings_of result ! 1)
        in case match_open_tag opening of
             None \<Rightarrow> None
           | Some tag \<Rightarrow>
               if closing \<noteq> ''</'' @ tag @ ''>'' then None
               else Some (strings_of result ! 0, strings_of result ! 1))"

fun tag_run :: "string \<Rightarrow> bool" where
  "tag_run [] = False"
| "tag_run (c # cs) = (c \<noteq> CHR ''>'' \<and> CHR ''>'' \<in> set cs)"

fun has_tag :: "string \<Rightarrow> bool" where
  "has_tag [] = False"
| "has_tag (c # cs) = ((c = CHR ''<'' \<and> tag_run cs) \<or> has_tag cs)"

fun is_infix :: "string \<Rightarrow> string \<Rightarrow> bool" where
  "is_infix pat [] = (pat = [])"
| "is_infix pat (c # cs) = (take (length pat) (c # cs) = pat \<or> is_infix pat cs)"

definition isHTMLString :: "tval \<Rightarrow> bool" where
  "isHTMLString str =
     (case str of
        TPrim (Str s) \<Rightarrow>
          if is_infix ''[object Object]'' s then False else has_tag s
      | other \<Rightarrow> False)"

text \<open>
  \<^verbatim>\<open>_updateArray\<close> works on the element that holds the list (\<^verbatim>\<open>this.node\<close>). The model
  keeps what the function reads and writes: the child nodes (identity, node type, text,
  and the \<^verbatim>\<open>strings\<close> identity of a \<^verbatim>\<open>_templateInstance\<close> if the node carries one),
  \<^verbatim>\<open>_cachedArray\<close>, \<^verbatim>\<open>_cachedArraySource\<close> (the identity of the last array),
  \<^verbatim>\<open>_chunkToken\<close> and the idle callbacks that are scheduled. Every DOM call is
  appended to \<open>ops\<close>, which no decision reads. The browser is the record \<open>host\<close>: the
  nodes that the HTML parser makes of a markup string, the top-level nodes that
  \<^verbatim>\<open>render\<close> leaves in an empty temporary container for a template result, and whether
  the module-level parse container exists. New nodes take fresh identities from
  \<open>next_nid\<close>. \<^verbatim>\<open>Math.floor(newLength * 0.1)\<close> is \<open>newLength div 10\<close>. In
  \<open>chunk_step\<close> the allowance is the number of loop iterations for which
  \<^verbatim>\<open>canContinue()\<close> answers true (\<open>None\<close>: no deadline object).
\<close>

definition FAST_LIST_THRESHOLD :: nat where
  "FAST_LIST_THRESHOLD = 50000"

definition CHUNK_THRESHOLD :: nat where
  "CHUNK_THRESHOLD = 100000"


datatype ntype = TEXT_NODE | ELEMENT_NODE | COMMENT_NODE

record dnode =
  nid :: nat
  nodeType :: ntype
  textContent :: string
  templateInstance :: "nat option"

record host =
  parse_html :: "string \<Rightarrow> dnode list"
  render_item :: "tval \<Rightarrow> dnode list"
  htmlParseDiv :: bool

datatype dom_op =
    SetTextContent nat string
  | ReplaceChild nat "nat list"
  | AppendChild "nat list"
  | RemoveChild nat
  | SetInnerHTML string
  | InsertAdjacentHTML string
  | UpdateInstance nat "tval list"

record chunk =
  token :: nat
  chunk_open :: string
  chunk_close :: string
  chunk_source :: nat
  chunk_items :: "tval list"
  chunk_index :: nat

record lstate =
  childNodes :: "dnode list"
  cachedArray :: "tval list option"
  cachedArraySource :: "nat option"
  next_nid :: nat
  chunkToken :: "nat option"
  next_token :: nat
  pending :: "chunk list"
  ops :: "dom_op list"

definition init_lstate :: lstate where
  "init_lstate = \<lparr>childNodes = [], cachedArray = None, cachedArraySource = None, next_nid = 0,
     chunkToken = None, next_token = 0, pending = [], ops = []\<rparr>"

definition nth_opt :: "'a list \<Rightarrow> nat \<Rightarrow> 'a option" where
  "nth_opt xs i = (if i < length xs then Some (xs ! i) else None)"

definition fresh :: "nat \<Rightarrow> dnode list \<Rightarrow> dnode list" where
  "fresh n ds = map (\<lambda>(i, d). d\<lparr>nid := n + i\<rparr>) (enumerate 0 ds)"

definition createTextNode :: "string \<Rightarrow> dnode" where
  "createTextNode s = \<lparr>nid = 0, nodeType = TEXT_NODE, textContent = s, templateInstance = None\<rparr>"

definition replaceChild :: "dnode list \<Rightarrow> nat \<Rightarrow> lstate \<Rightarrow> lstate" where
  "replaceChild ds i st =
     (let new = fresh (next_nid st) ds in
      st\<lparr>childNodes := take i (childNodes st) @ new @ drop (Suc i) (childNodes st),
         next_nid := next_nid st + length ds,
         ops := ops st @ [ReplaceChild (nid (childNodes st ! i)) (map nid new)]\<rparr>)"

definition appendChild :: "dnode list \<Rightarrow> lstate \<Rightarrow> lstate" where
  "appendChild ds st =
     (let new = fresh (next_nid st) ds in
      st\<lparr>childNodes := childNodes st @ new,
         next_nid := next_nid st + length ds,
         ops := ops st @ [AppendChild (map nid new)]\<rparr>)"

definition set_textContent :: "nat \<Rightarrow> string \<Rightarrow> lstate \<Rightarrow> lstate" where
  "set_textContent i s st =
     st\<lparr>childNodes := (childNodes st)[i := (childNodes st ! i)\<lparr>textContent := s\<rparr>],
        ops := ops st @ [SetTextContent (nid (childNodes st ! i)) s]\<rparr>"

definition removeChild :: "lstate \<Rightarrow> nat \<Rightarrow> lstate" where
  "removeChild st i =
     (case nth_opt (childNodes st) i of
        None \<Rightarrow> st
      | Some childNode \<Rightarrow>
          st\<lparr>childNodes := take i (childNodes st) @ drop (Suc i) (childNodes st),
             ops := ops st @ [RemoveChild (nid childNode)]\<rparr>)"

definition set_innerHTML :: "host \<Rightarrow> string \<Rightarrow> lstate \<Rightarrow> lstate" where
  "set_innerHTML h markup st =
     (let new = fresh (next_nid st) (parse_html h markup) in
      st\<lparr>childNodes := new,
         next_nid := next_nid st + length new,
         ops := ops st @ [SetInnerHTML markup]\<rparr>)"


definition first_value :: "tval \<Rightarrow> tval" where
  "first_value item = (case values_of item of [] \<Rightarrow> TPrim Undefined | v # vs \<Rightarrow> v)"

definition escaped_value :: "tval \<Rightarrow> string" where
  "escaped_value v = escapeHtml (if is_nullish v then TPrim (Str []) else v)"

definition item_markup :: "string \<Rightarrow> string \<Rightarrow> tval \<Rightarrow> string" where
  "item_markup opening closing item =
     (let v = first_value item in opening @ escaped_value v @ closing)"

definition builder :: "string \<Rightarrow> string \<Rightarrow> tval list \<Rightarrow> string" where
  "builder opening closing newArray = concat (map (item_markup opening closing) newArray)"

definition homogeneous :: "tval list \<Rightarrow> bool" where
  "homogeneous newArray =
     list_all (\<lambda>item. \<not> (\<not> isTemplateResult item \<or> strings_id item \<noteq> strings_id (newArray ! 0) \<or>
                          length (values_of item) \<noteq> 1))
       (drop 1 newArray)"

definition maxChangesForDiff :: "nat \<Rightarrow> nat" where
  "maxChangesForDiff newLength = max 10 (newLength div 10)"

definition changedCount :: "tval list \<Rightarrow> tval list \<Rightarrow> nat" where
  "changedCount newArray oldArray =
     foldl (\<lambda>c i. if c \<le> maxChangesForDiff (length newArray) \<and>
                      \<not> itemsEqual (newArray ! i) (oldArray ! i) then c + 1 else c)
       0 [0..<length newArray]"

datatype route = Diff | Chunked string string | Bulk string string

definition fast_path :: "tval list \<Rightarrow> tval list \<Rightarrow> route" where
  "fast_path newArray oldArray =
     (let newLength = length newArray; oldLength = length oldArray in
      if newLength \<ge> FAST_LIST_THRESHOLD \<and> isTemplateResult (newArray ! 0) then
        (case isSimpleWrapperTemplate (newArray ! 0) of
           None \<Rightarrow> Diff
         | Some simple \<Rightarrow>
             if homogeneous newArray then
               (let opening = strings_of (newArray ! 0) ! 0;
                    closing = strings_of (newArray ! 0) ! 1
                in if oldLength = 0 then
                     (if newLength \<ge> CHUNK_THRESHOLD then Chunked opening closing
                      else Bulk opening closing)
                   else if oldLength > 0 \<and> newLength = oldLength then
                     (if changedCount newArray oldArray \<le> maxChangesForDiff newLength then Diff
                      else Bulk opening closing)
                   else Bulk opening closing)
             else Diff)
      else Diff)"

definition set_cache :: "nat \<Rightarrow> tval list \<Rightarrow> lstate \<Rightarrow> lstate" where
  "set_cache a newArray st =
     st\<lparr>cachedArray := Some (map cloneArrayItem newArray), cachedArraySource := Some a\<rparr>"

definition scheduleChunkedHTMLAppend ::
  "host \<Rightarrow> string \<Rightarrow> string \<Rightarrow> nat \<Rightarrow> tval list \<Rightarrow> lstate \<Rightarrow> lstate" where
  "scheduleChunkedHTMLAppend h opening closing a newArray st =
     (let tok = next_token st;
          st1 = set_innerHTML h [] (st\<lparr>chunkToken := Some tok, next_token := Suc tok\<rparr>)
      in st1\<lparr>pending := pending st1 @
           [\<lparr>token = tok, chunk_open = opening, chunk_close = closing, chunk_source = a,
             chunk_items = newArray, chunk_index = 0\<rparr>]\<rparr>)"



definition diff_item :: "host \<Rightarrow> tval list \<Rightarrow> tval list \<Rightarrow> lstate \<Rightarrow> nat \<Rightarrow> lstate" where
  "diff_item h newArray oldArray st i =
     (let newItem = newArray ! i;
          oldItem = oldArray ! i;
          childNode = nth_opt (childNodes st) i
      in if itemsEqual newItem oldItem then st
         else if isTemplateResult newItem then
           (case childNode of
              Some c \<Rightarrow>
                (case templateInstance c of
                   Some s \<Rightarrow>
                     if s = strings_id newItem
                     then st\<lparr>ops := ops st @ [UpdateInstance (nid c) (values_of newItem)]\<rparr>
                     else replaceChild (render_item h newItem) i st
                 | None \<Rightarrow> replaceChild (render_item h newItem) i st)
            | None \<Rightarrow> appendChild (render_item h newItem) st)
         else if isHTMLString newItem then
           (if htmlParseDiv h then
              (case childNode of
                 Some c \<Rightarrow> replaceChild (parse_html h (to_string newItem)) i st
               | None \<Rightarrow> appendChild (parse_html h (to_string newItem)) st)
            else
              (case childNode of
                 Some c \<Rightarrow> set_textContent i (to_string newItem) st
               | None \<Rightarrow> appendChild [createTextNode (to_string newItem)] st))
         else
           (case childNode of
              Some c \<Rightarrow>
                if nodeType c = TEXT_NODE then set_textContent i (to_string newItem) st
                else replaceChild [createTextNode (to_string newItem)] i st
            | None \<Rightarrow> appendChild [createTextNode (to_string newItem)] st))"

definition new_item_nodes :: "host \<Rightarrow> tval \<Rightarrow> dnode list" where
  "new_item_nodes h newItem =
     (if isTemplateResult newItem then render_item h newItem
      else if isHTMLString newItem then
        (if htmlParseDiv h then parse_html h (to_string newItem)
         else if \<not> is_nullish newItem then [createTextNode (to_string newItem)] else [])
      else if \<not> is_nullish newItem then [createTextNode (to_string newItem)]
      else [])"

definition append_phase :: "host \<Rightarrow> tval list \<Rightarrow> nat \<Rightarrow> lstate \<Rightarrow> lstate" where
  "append_phase h newArray oldLength st =
     (if length newArray > oldLength
      then appendChild (concat (map (new_item_nodes h) (drop oldLength newArray))) st
      else st)"

definition remove_phase :: "nat \<Rightarrow> nat \<Rightarrow> lstate \<Rightarrow> lstate" where
  "remove_phase newLength oldLength st =
     (if newLength < oldLength
      then foldl removeChild st (rev [newLength..<length (childNodes st)])
      else st)"

definition updateArray :: "host \<Rightarrow> nat \<Rightarrow> tval list \<Rightarrow> lstate \<Rightarrow> lstate" where
  "updateArray h a newArray st =
     (if cachedArraySource st = Some a then st
      else
        let oldArray = (case cachedArray st of None \<Rightarrow> [] | Some xs \<Rightarrow> xs);
            newLength = length newArray;
            oldLength = length oldArray
        in case fast_path newArray oldArray of
             Chunked opening closing \<Rightarrow>
               scheduleChunkedHTMLAppend h opening closing a newArray st
           | Bulk opening closing \<Rightarrow>
               set_cache a newArray (set_innerHTML h (builder opening closing newArray) st)
           | Diff \<Rightarrow>
               (let minLength = min newLength oldLength;
                    st1 = foldl (diff_item h newArray oldArray) st [0..<minLength];
                    st2 = append_phase h newArray oldLength st1;
                    st3 = remove_phase newLength oldLength st2
                in set_cache a newArray st3))"






















definition demo_host :: host where
  "demo_host = \<lparr>parse_html = (\<lambda>s. [\<lparr>nid = 0, nodeType = ELEMENT_NODE, textContent = s,
                                      templateInstance = None\<rparr>]),
                 render_item = (\<lambda>v. [\<lparr>nid = 0, nodeType = ELEMENT_NODE,
                                      textContent = concat (strings_of v), templateInstance = None\<rparr>]),
                 htmlParseDiv = True\<rparr>"



lemma fast_path_Diff:
  assumes k: "k < length newArray" and nt: "\<not> isTemplateResult (newArray ! k)"
  shows "fast_path newArray oldArray = Diff"
proof (cases k)
  case 0
  thus ?thesis using nt by (simp add: fast_path_def Let_def)
next
  case (Suc j)
  hence "newArray ! k = drop 1 newArray ! j" "j < length (drop 1 newArray)" using k by simp_all
  hence "newArray ! k \<in> set (drop 1 newArray)" by (metis nth_mem)
  hence "\<not> homogeneous newArray" using nt by (auto simp: homogeneous_def list_all_iff)
  thus ?thesis by (simp add: fast_path_def Let_def split: option.splits)
qed

lemma diff_loop_skip:
  assumes "\<forall>i\<in>set is. itemsEqual (newArray ! i) (oldArray ! i)"
  shows "foldl (diff_item h newArray oldArray) st is = st"
  using assms by (induction "is") (simp_all add: diff_item_def Let_def)

lemma diff_item_text:
  assumes changed: "\<not> itemsEqual (newArray ! k) (oldArray ! k)"
    and nt: "\<not> isTemplateResult (newArray ! k)"
    and nh: "\<not> isHTMLString (newArray ! k)"
    and child: "k < length (childNodes st)" "nodeType (childNodes st ! k) = TEXT_NODE"
  shows "diff_item h newArray oldArray st k = set_textContent k (to_string (newArray ! k)) st"
  using assms by (simp add: diff_item_def Let_def nth_opt_def)

lemma diff_loop_single:
  assumes k: "k < n"
    and same: "\<forall>i<n. i \<noteq> k \<longrightarrow> itemsEqual (newArray ! i) (oldArray ! i)"
    and changed: "\<not> itemsEqual (newArray ! k) (oldArray ! k)"
    and nt: "\<not> isTemplateResult (newArray ! k)"
    and nh: "\<not> isHTMLString (newArray ! k)"
    and child: "k < length (childNodes st)" "nodeType (childNodes st ! k) = TEXT_NODE"
  shows "foldl (diff_item h newArray oldArray) st [0..<n] =
         set_textContent k (to_string (newArray ! k)) st"
proof -
  have split: "[0..<n] = [0..<k] @ k # [Suc k..<n]"
    using k by (metis le_add1 less_imp_add_positive upt_add_eq_append upt_conv_Cons plus_nat.add_0 less_or_eq_imp_le)
  have before: "foldl (diff_item h newArray oldArray) st [0..<k] = st"
    using same k by (intro diff_loop_skip) auto
  have after: "foldl (diff_item h newArray oldArray) s [Suc k..<n] = s" for s
    using same by (intro diff_loop_skip) auto
  show ?thesis
    by (simp add: split before after diff_item_text [OF changed nt nh child])
qed

lemma updateArray_single_text:
  assumes src: "cachedArraySource st \<noteq> Some a"
    and cache: "cachedArray st = Some oldArray"
    and len: "length newArray = length oldArray"
    and k: "k < length oldArray"
    and same: "\<forall>i<length oldArray. i \<noteq> k \<longrightarrow> itemsEqual (newArray ! i) (oldArray ! i)"
    and changed: "\<not> itemsEqual (newArray ! k) (oldArray ! k)"
    and nt: "\<not> isTemplateResult (newArray ! k)"
    and nh: "\<not> isHTMLString (newArray ! k)"
    and child: "k < length (childNodes st)" "nodeType (childNodes st ! k) = TEXT_NODE"
  shows "updateArray h a newArray st =
         set_cache a newArray (set_textContent k (to_string (newArray ! k)) st)"
proof -
  have fp: "fast_path newArray oldArray = Diff"
    using k len nt by (intro fast_path_Diff [of k]) simp_all
  have loop: "foldl (diff_item h newArray oldArray) st [0..<length oldArray] =
         set_textContent k (to_string (newArray ! k)) st"
    using k same changed nt nh child by (rule diff_loop_single)
  show ?thesis
    using src by (simp add: updateArray_def cache Let_def fp len loop append_phase_def remove_phase_def)
qed

lemmas list_defs = updateArray_def fast_path_def FAST_LIST_THRESHOLD_def Let_def append_phase_def
  remove_phase_def new_item_nodes_def isHTMLString_def appendChild_def replaceChild_def
  set_textContent_def fresh_def createTextNode_def set_cache_def cloneArrayItem_def
  itemsEqual_def diff_item_def nth_opt_def demo_host_def init_lstate_def

definition abc_rendered :: lstate where
  "abc_rendered =
     updateArray demo_host 1 [TPrim (Str ''a''), TPrim (Str ''b''), TPrim (Str ''c'')] init_lstate"

lemma abc_rendered_eq:
  "abc_rendered =
     \<lparr>childNodes = [\<lparr>nid = 0, nodeType = TEXT_NODE, textContent = ''a'', templateInstance = None\<rparr>,
                    \<lparr>nid = 1, nodeType = TEXT_NODE, textContent = ''b'', templateInstance = None\<rparr>,
                    \<lparr>nid = 2, nodeType = TEXT_NODE, textContent = ''c'', templateInstance = None\<rparr>],
      cachedArray = Some [TPrim (Str ''a''), TPrim (Str ''b''), TPrim (Str ''c'')],
      cachedArraySource = Some 1, next_nid = 3, chunkToken = None, next_token = 0,
      pending = [], ops = [AppendChild [0, 1, 2]]\<rparr>"
  by (simp add: abc_rendered_def list_defs)

text \<open>
  \<^verbatim>\<open>render\<close>, \<^verbatim>\<open>TemplateInstance.update\<close> and \<^verbatim>\<open>TemplatePart.setValue\<close> decide which
  parts are committed. A part is its name (\<^verbatim>\<open>'node'\<close> for a content slot, the attribute
  name otherwise) and its last committed \<^verbatim>\<open>value\<close>, \<^verbatim>\<open>undefined\<close> at creation; an
  instance is the identity of its template's \<^verbatim>\<open>strings\<close> and the sparse array
  \<^verbatim>\<open>parts\<close>, a hole being \<open>None\<close>; a container is its \<^verbatim>\<open>_templateInstance\<close>. What
  \<^verbatim>\<open>commit\<close> does to the document is not looked at here: each call of it is the event
  \<open>Commit index name value\<close>, \<^verbatim>\<open>container.innerHTML = ''\<close> is \<open>ClearContainer\<close> and
  \<^verbatim>\<open>instance.mount()\<close> is \<open>Mount\<close>. The parts that the tree walk finds in the parsed
  template are given by the parameter \<open>layout\<close>, a function of the literal segments
  (\<^verbatim>\<open>getTemplate\<close> parses once for each \<^verbatim>\<open>strings\<close> array). \<open>setValue\<close> returns the
  part and whether it committed; \<open>render\<close> returns the container and the events, or
  the error it throws for an argument that is no template result.
\<close>

record part =
  pname :: string
  pvalue :: tval

datatype render_event = ClearContainer | Commit nat string tval | Mount

record tinstance =
  template_strings :: nat
  parts :: "part option list"

record container =
  container_instance :: "tinstance option"

datatype render_error = NotTemplateResult

fun elements_of :: "tval \<Rightarrow> tval list" where
  "elements_of (TArr i xs) = xs"
| "elements_of v = []"

fun html_of :: "tval \<Rightarrow> string" where
  "html_of (TUnsafe i h) = h"
| "html_of v = []"

definition deep_unchanged :: "tval \<Rightarrow> tval \<Rightarrow> bool" where
  "deep_unchanged old v =
     (if isArray old \<and> isArray v then arraysEqual (elements_of old) (elements_of v)
      else if isTemplateResult old \<and> isTemplateResult v then
        strings_id old = strings_id v \<and> arraysEqual (values_of old) (values_of v)
      else if isUnsafeHTML old \<and> isUnsafeHTML v then html_of old = html_of v
      else False)"

definition setValue :: "tval \<Rightarrow> part \<Rightarrow> part \<times> bool" where
  "setValue v p =
     (if tstrict_eq (pvalue p) v then (p, False)
      else if pvalue p \<noteq> TPrim Undefined \<and> v \<noteq> TPrim Undefined \<and> deep_unchanged (pvalue p) v
      then (p, False)
      else (p\<lparr>pvalue := v\<rparr>, True))"

definition value_at :: "tval list \<Rightarrow> nat \<Rightarrow> tval" where
  "value_at vs index = (if index < length vs then vs ! index else TPrim Undefined)"

fun update_parts ::
  "tval list \<Rightarrow> nat \<Rightarrow> part option list \<Rightarrow> part option list \<times> render_event list" where
  "update_parts vs index [] = ([], [])"
| "update_parts vs index (None # ps) =
     (let (ps', evs) = update_parts vs (Suc index) ps in (None # ps', evs))"
| "update_parts vs index (Some p # ps) =
     (let (p', committed) = setValue (value_at vs index) p;
          (ps', evs) = update_parts vs (Suc index) ps
      in (Some p' # ps',
          (if committed then [Commit index (pname p') (pvalue p')] else []) @ evs))"

definition update :: "tval list \<Rightarrow> tinstance \<Rightarrow> tinstance \<times> render_event list" where
  "update vs inst =
     (let (ps', evs) = update_parts vs 0 (parts inst) in (inst\<lparr>parts := ps'\<rparr>, evs))"

definition new_instance :: "(string list \<Rightarrow> string option list) \<Rightarrow> tval \<Rightarrow> tinstance" where
  "new_instance layout result =
     \<lparr>template_strings = strings_id result,
      parts = map (map_option (\<lambda>name. \<lparr>pname = name, pvalue = TPrim Undefined\<rparr>))
                (layout (strings_of result))\<rparr>"

definition render ::
  "(string list \<Rightarrow> string option list) \<Rightarrow> tval \<Rightarrow> container \<Rightarrow>
   render_error + (container \<times> render_event list)" where
  "render layout result c =
     (if \<not> isTemplateResult result then Inl NotTemplateResult
      else if container_instance c = None \<or>
              template_strings (the (container_instance c)) \<noteq> strings_id result then
        (let (inst, evs) = update (values_of result) (new_instance layout result)
         in Inr (c\<lparr>container_instance := Some inst\<rparr>, ClearContainer # evs @ [Mount]))
      else
        (let (inst, evs) = update (values_of result) (the (container_instance c))
         in Inr (c\<lparr>container_instance := Some inst\<rparr>, evs)))"

lemma tstrict_eq_refl: "v \<noteq> TPrim NaN \<Longrightarrow> tstrict_eq v v"
proof (cases v)
  case (TPrim p)
  assume "v \<noteq> TPrim NaN"
  thus ?thesis using TPrim by (cases p) simp_all
qed simp_all

lemma setValue_again:
  assumes "setValue v p = (p', b)" and "tstrict_eq v v"
  shows "setValue v p' = (p', False)"
proof (cases "tstrict_eq (pvalue p) v \<or>
    (pvalue p \<noteq> TPrim Undefined \<and> v \<noteq> TPrim Undefined \<and> deep_unchanged (pvalue p) v)")
  case True
  hence "setValue v p = (p, False)" by (auto simp: setValue_def)
  thus ?thesis using assms(1) by simp
next
  case False
  hence "setValue v p = (p\<lparr>pvalue := v\<rparr>, True)" by (auto simp: setValue_def)
  hence "p' = p\<lparr>pvalue := v\<rparr>" using assms(1) by simp
  thus ?thesis using assms(2) by (simp add: setValue_def)
qed

lemma update_parts_again:
  assumes "update_parts vs index ps = (ps', evs)"
    and "\<forall>v\<in>set vs. v \<noteq> TPrim NaN"
  shows "update_parts vs index ps' = (ps', [])"
  using assms
proof (induction vs index ps arbitrary: ps' evs rule: update_parts.induct)
  case (1 vs index)
  thus ?case by simp
next
  case (2 vs index ps)
  obtain qs es where r: "update_parts vs (Suc index) ps = (qs, es)" by (cases "update_parts vs (Suc index) ps")
  hence "update_parts vs (Suc index) qs = (qs, [])" using 2 by blast
  thus ?case using 2(2) r by auto
next
  case (3 vs index p ps)
  obtain p' b where s: "setValue (value_at vs index) p = (p', b)"
    by (cases "setValue (value_at vs index) p")
  obtain qs es where r: "update_parts vs (Suc index) ps = (qs, es)" by (cases "update_parts vs (Suc index) ps")
  have "value_at vs index \<noteq> TPrim NaN" using 3(3) by (auto simp: value_at_def)
  hence "tstrict_eq (value_at vs index) (value_at vs index)" by (rule tstrict_eq_refl)
  hence s': "setValue (value_at vs index) p' = (p', False)" using s by (intro setValue_again)
  have r': "update_parts vs (Suc index) qs = (qs, [])" using 3(1) [OF s [symmetric] refl r] 3(3) by blast
  show ?case using 3(2) s r s' r' by auto
qed

lemma update_again:
  assumes "update vs inst = (inst', evs)" and "\<forall>v\<in>set vs. v \<noteq> TPrim NaN"
  shows "update vs inst' = (inst', [])"
proof -
  obtain ps' es where r: "update_parts vs 0 (parts inst) = (ps', es)"
    by (cases "update_parts vs 0 (parts inst)")
  hence i: "inst' = inst\<lparr>parts := ps'\<rparr>" using assms(1) by (simp add: update_def)
  have "update_parts vs 0 ps' = (ps', [])" using r assms(2) by (rule update_parts_again)
  thus ?thesis by (simp add: update_def i)
qed

lemma update_strings:
  "update vs inst = (inst', evs) \<Longrightarrow> template_strings inst' = template_strings inst"
  by (auto simp: update_def split: prod.splits)

definition one_slot :: "string list \<Rightarrow> string option list" where
  "one_slot segs = [Some ''node'']"

section \<open>Template parts: properties\<close>



text \<open>
  C2 (list diff minimality), as amended. \<^verbatim>\<open>_updateArray\<close> is called with a new array
  object of the length of the cached list, whose items compare equal (\<^verbatim>\<open>_itemsEqual\<close>)
  to the cached ones at every index but \<open>k\<close>, where they differ; the new item at \<open>k\<close>
  is neither a template result nor an HTML string, and the child at index \<open>k\<close> is a
  text node, as the function creates one for such an item. Then the call performs one
  DOM operation, the assignment of \<^verbatim>\<open>String(item)\<close> to \<^verbatim>\<open>textContent\<close> of child \<open>k\<close>:
  the children keep their identities and their order, every other child is unchanged,
  no node is created or removed, and the new list is cached.
\<close>

theorem list_diff_minimality:
  assumes src: "cachedArraySource st \<noteq> Some a"
    and cache: "cachedArray st = Some oldArray"
    and len: "length newArray = length oldArray"
    and k: "k < length oldArray"
    and same: "\<forall>i<length oldArray. i \<noteq> k \<longrightarrow> itemsEqual (newArray ! i) (oldArray ! i)"
    and changed: "\<not> itemsEqual (newArray ! k) (oldArray ! k)"
    and nt: "\<not> isTemplateResult (newArray ! k)"
    and nh: "\<not> isHTMLString (newArray ! k)"
    and child: "k < length (childNodes st)" "nodeType (childNodes st ! k) = TEXT_NODE"
  shows "ops (updateArray h a newArray st) =
           ops st @ [SetTextContent (nid (childNodes st ! k)) (to_string (newArray ! k))] \<and>
         childNodes (updateArray h a newArray st) =
           (childNodes st)[k := (childNodes st ! k)\<lparr>textContent := to_string (newArray ! k)\<rparr>] \<and>
         map nid (childNodes (updateArray h a newArray st)) = map nid (childNodes st) \<and>
         next_nid (updateArray h a newArray st) = next_nid st \<and>
         cachedArray (updateArray h a newArray st) = Some (map cloneArrayItem newArray)"
proof -
  have upd: "updateArray h a newArray st =
         set_cache a newArray (set_textContent k (to_string (newArray ! k)) st)"
    using assms by (rule updateArray_single_text)
  have ids: "map nid ((childNodes st)[k := (childNodes st ! k)\<lparr>textContent := to_string (newArray ! k)\<rparr>])
      = map nid (childNodes st)"
    using child(1) by (simp add: map_update list_update_same_conv)
  show ?thesis
    unfolding upd using ids by (simp add: set_cache_def set_textContent_def)
qed

theorem list_diff_minimality_witness:
  "ops (updateArray demo_host 2 [TPrim (Str ''a''), TPrim (Str ''x''), TPrim (Str ''c'')] abc_rendered) =
     [AppendChild [0, 1, 2], SetTextContent 1 ''x''] \<and>
   map nid (childNodes (updateArray demo_host 2
      [TPrim (Str ''a''), TPrim (Str ''x''), TPrim (Str ''c'')] abc_rendered)) = [0, 1, 2] \<and>
   map textContent (childNodes (updateArray demo_host 2
      [TPrim (Str ''a''), TPrim (Str ''x''), TPrim (Str ''c'')] abc_rendered)) = [''a'', ''x'', ''c'']"
proof -
  have same: "\<forall>i<length [TPrim (Str ''a''), TPrim (Str ''b''), TPrim (Str ''c'')]. i \<noteq> 1 \<longrightarrow>
      itemsEqual ([TPrim (Str ''a''), TPrim (Str ''x''), TPrim (Str ''c'')] ! i)
                 ([TPrim (Str ''a''), TPrim (Str ''b''), TPrim (Str ''c'')] ! i)"
    by (simp add: itemsEqual_def less_Suc_eq eval_nat_numeral)
  show ?thesis
    using list_diff_minimality [of abc_rendered 2
        "[TPrim (Str ''a''), TPrim (Str ''b''), TPrim (Str ''c'')]"
        "[TPrim (Str ''a''), TPrim (Str ''x''), TPrim (Str ''c'')]" 1 demo_host, OF _ _ _ _ same]
    by (simp add: abc_rendered_eq itemsEqual_def isHTMLString_def)
qed

text \<open>
  C2 as stated, for every list, does not hold: a changed item that is an HTML string
  is parsed and the child at its index is replaced by the parsed nodes
  (\<^verbatim>\<open>replaceChild\<close>). The list \<^verbatim>\<open>"a", "b", "c"\<close> is rendered as the text nodes 0, 1, 2;
  re-rendered with \<^verbatim>\<open>"<i>b</i>"\<close> at index 1, node 1 is gone and the new element 3
  is in its place.
\<close>

theorem list_diff_minimality_counterexample:
  "ops (updateArray demo_host 2 [TPrim (Str ''a''), TPrim (Str ''<i>b</i>''), TPrim (Str ''c'')]
          abc_rendered) = [AppendChild [0, 1, 2], ReplaceChild 1 [3]] \<and>
   map nid (childNodes abc_rendered) = [0, 1, 2] \<and>
   map nid (childNodes (updateArray demo_host 2
      [TPrim (Str ''a''), TPrim (Str ''<i>b</i>''), TPrim (Str ''c'')] abc_rendered)) = [0, 3, 2] \<and>
   map nodeType (childNodes (updateArray demo_host 2
      [TPrim (Str ''a''), TPrim (Str ''<i>b</i>''), TPrim (Str ''c'')] abc_rendered)) =
     [TEXT_NODE, ELEMENT_NODE, TEXT_NODE]"
  by (simp add: abc_rendered_eq list_defs)

text \<open>
  C6 (render idempotence), as amended. For a template result \<open>t\<close> none of whose
  interpolated values is \<open>NaN\<close> and every container \<open>c\<close>: when \<^verbatim>\<open>render(t, c)\<close> has
  returned, a second \<^verbatim>\<open>render(t, c)\<close> commits no part, performs no other DOM mutation
  and leaves the container, its instance and the value of every part as they are.
\<close>

theorem render_idempotence:
  assumes first: "render layout t c = Inr (c1, evs)"
    and vals: "\<forall>v\<in>set (values_of t). v \<noteq> TPrim NaN"
  shows "render layout t c1 = Inr (c1, [])"
proof -
  have tr: "isTemplateResult t" using first by (auto simp: render_def split: if_splits)
  obtain inst0 where inst0: "inst0 = (if container_instance c = None \<or>
              template_strings (the (container_instance c)) \<noteq> strings_id t
            then new_instance layout t else the (container_instance c))" by simp
  obtain inst es where u: "update (values_of t) inst0 = (inst, es)"
    by (cases "update (values_of t) inst0")
  have c1: "c1 = c\<lparr>container_instance := Some inst\<rparr>"
    using first tr u inst0 by (auto simp: render_def split: if_splits)
  have "template_strings inst0 = strings_id t"
    by (auto simp: inst0 new_instance_def)
  hence str: "template_strings inst = strings_id t" using update_strings [OF u] by simp
  have "update (values_of t) inst = (inst, [])" using u vals by (rule update_again)
  thus ?thesis using tr str by (simp add: render_def c1)
qed

theorem render_idempotence_witness:
  "render one_slot (TRes 1 7 [''<p>'', ''</p>''] [TPrim (Str ''hi'')]) \<lparr>container_instance = None\<rparr> =
     Inr (\<lparr>container_instance = Some \<lparr>template_strings = 7,
             parts = [Some \<lparr>pname = ''node'', pvalue = TPrim (Str ''hi'')\<rparr>]\<rparr>\<rparr>,
          [ClearContainer, Commit 0 ''node'' (TPrim (Str ''hi'')), Mount]) \<and>
   render one_slot (TRes 1 7 [''<p>'', ''</p>''] [TPrim (Str ''hi'')])
     \<lparr>container_instance = Some \<lparr>template_strings = 7,
             parts = [Some \<lparr>pname = ''node'', pvalue = TPrim (Str ''hi'')\<rparr>]\<rparr>\<rparr> =
     Inr (\<lparr>container_instance = Some \<lparr>template_strings = 7,
             parts = [Some \<lparr>pname = ''node'', pvalue = TPrim (Str ''hi'')\<rparr>]\<rparr>\<rparr>, [])"
proof -
  have first: "render one_slot (TRes 1 7 [''<p>'', ''</p>''] [TPrim (Str ''hi'')])
      \<lparr>container_instance = None\<rparr> =
     Inr (\<lparr>container_instance = Some \<lparr>template_strings = 7,
             parts = [Some \<lparr>pname = ''node'', pvalue = TPrim (Str ''hi'')\<rparr>]\<rparr>\<rparr>,
          [ClearContainer, Commit 0 ''node'' (TPrim (Str ''hi'')), Mount])"
    by (simp add: render_def update_def new_instance_def one_slot_def setValue_def deep_unchanged_def value_at_def)
  have "render one_slot (TRes 1 7 [''<p>'', ''</p>''] [TPrim (Str ''hi'')])
     \<lparr>container_instance = Some \<lparr>template_strings = 7,
             parts = [Some \<lparr>pname = ''node'', pvalue = TPrim (Str ''hi'')\<rparr>]\<rparr>\<rparr> =
     Inr (\<lparr>container_instance = Some \<lparr>template_strings = 7,
             parts = [Some \<lparr>pname = ''node'', pvalue = TPrim (Str ''hi'')\<rparr>]\<rparr>\<rparr>, [])"
    by (rule render_idempotence [OF first]) simp
  thus ?thesis using first by simp
qed

text \<open>
  C6 as stated, for every template result, does not hold: \<^verbatim>\<open>setValue\<close> compares with
  \<^verbatim>\<open>===\<close>, and \<open>NaN\<close> is not equal to itself. A template result with the value \<open>NaN\<close>
  in its content slot commits the part again on the second call.
\<close>

theorem render_idempotence_counterexample:
  "render one_slot (TRes 1 7 [''<p>'', ''</p>''] [TPrim NaN]) \<lparr>container_instance = None\<rparr> =
     Inr (\<lparr>container_instance = Some \<lparr>template_strings = 7,
             parts = [Some \<lparr>pname = ''node'', pvalue = TPrim NaN\<rparr>]\<rparr>\<rparr>,
          [ClearContainer, Commit 0 ''node'' (TPrim NaN), Mount]) \<and>
   render one_slot (TRes 1 7 [''<p>'', ''</p>''] [TPrim NaN])
     \<lparr>container_instance = Some \<lparr>template_strings = 7,
             parts = [Some \<lparr>pname = ''node'', pvalue = TPrim NaN\<rparr>]\<rparr>\<rparr> =
     Inr (\<lparr>container_instance = Some \<lparr>template_strings = 7,
             parts = [Some \<lparr>pname = ''node'', pvalue = TPrim NaN\<rparr>]\<rparr>\<rparr>,
          [Commit 0 ''node'' (TPrim NaN)])"
  by (simp add: render_def update_def new_instance_def one_slot_def setValue_def deep_unchanged_def value_at_def)

end
